theory Spec2Isabelle
  imports Main "HOL-Library.Sublist" "HOL-Library.Char_ord" "HOL-Library.List_Lexorder"
begin

section \<open>Python strings\<close>

text \<open>
  The scraper (scripts/scrape/scrapers/hl7_event_scraper.py) works on the text that the
  browser returns for rows, cells and style attributes. A Python \<open>str\<close> is modelled as a
  \<^typ>\<open>string\<close>, one character per code point. The alphabet of the model is ASCII plus the
  infinity sign U+221E, the only non-ASCII character the source names; it is one
  character outside ASCII, so that its length is 1 as in Python.
\<close>

definition ord :: "char \<Rightarrow> nat" where
  "ord c = of_char c"

definition infinity_sign :: string where
  "infinity_sign = [CHR 0xEC]"

definition isspace :: "char \<Rightarrow> bool" where
  \<comment> \<open>\<open>str.isspace\<close> on ASCII: tab, LF, VT, FF, CR, FS, GS, RS, US and space\<close>
  "isspace c = ((9 \<le> ord c \<and> ord c \<le> 13) \<or> (28 \<le> ord c \<and> ord c \<le> 32))"

definition isdigit :: "char \<Rightarrow> bool" where
  "isdigit c = (48 \<le> ord c \<and> ord c \<le> 57)"

definition is_upper_char :: "char \<Rightarrow> bool" where
  "is_upper_char c = (65 \<le> ord c \<and> ord c \<le> 90)"

definition is_lower_char :: "char \<Rightarrow> bool" where
  "is_lower_char c = (97 \<le> ord c \<and> ord c \<le> 122)"

definition strip :: "string \<Rightarrow> string" where
  \<comment> \<open>\<open>s.strip()\<close>\<close>
  "strip s = rev (dropWhile isspace (rev (dropWhile isspace s)))"

definition rstrip_slash :: "string \<Rightarrow> string" where
  \<comment> \<open>\<open>s.rstrip('/')\<close>\<close>
  "rstrip_slash s = rev (dropWhile (\<lambda>c. c = CHR ''/'') (rev s))"

definition startswith :: "string \<Rightarrow> string \<Rightarrow> bool" where
  \<comment> \<open>\<open>s.startswith(p)\<close>\<close>
  "startswith s p = (take (length p) s = p)"

fun contains :: "string \<Rightarrow> string \<Rightarrow> bool" where
  \<comment> \<open>\<open>sub in s\<close>\<close>
  "contains sub [] = (sub = [])"
| "contains sub (c # cs) = (startswith (c # cs) sub \<or> contains sub cs)"

fun split_first :: "string \<Rightarrow> string \<Rightarrow> (string \<times> string) option" where
  \<comment> \<open>\<open>s.split(sep, 1)\<close> for a non-empty \<open>sep\<close>: the text before and after the first
      occurrence of \<open>sep\<close>, or \<open>None\<close> when \<open>sep\<close> does not occur (Python then returns [s])\<close>
  "split_first sep [] = None"
| "split_first sep (c # cs) =
     (if startswith (c # cs) sep then Some ([], drop (length sep) (c # cs))
      else (case split_first sep cs of
              None \<Rightarrow> None
            | Some (a, b) \<Rightarrow> Some (c # a, b)))"

fun split_lines :: "string \<Rightarrow> string list" where
  \<comment> \<open>\<open>s.split('\n')\<close>: never the empty list, so the first case of the inner \<open>case\<close> does not occur\<close>
  "split_lines [] = [[]]"
| "split_lines (c # cs) =
     (if c = CHR 0x0A then [] # split_lines cs
      else (case split_lines cs of
              [] \<Rightarrow> [[c]]
            | l # ls \<Rightarrow> (c # l) # ls))"

definition isupper :: "string \<Rightarrow> bool" where
  \<comment> \<open>\<open>s.isupper()\<close>: at least one cased character and no lower-case one\<close>
  "isupper s = (list_ex is_upper_char s \<and> \<not> list_ex is_lower_char s)"

definition upper :: "string \<Rightarrow> string" where
  \<comment> \<open>\<open>s.upper()\<close>\<close>
  "upper s = map (\<lambda>c. if is_lower_char c then char_of (ord c - 32) else c) s"

definition int_of_digits :: "string \<Rightarrow> nat" where
  \<comment> \<open>\<open>int(s)\<close> for a string of decimal digits (Python integers are unbounded)\<close>
  "int_of_digits s = foldl (\<lambda>n c. 10 * n + (ord c - 48)) 0 s"

definition match_padding :: "string \<Rightarrow> string option" where
  \<comment> \<open>the pattern \<open>padding-left:\s*(\d+)px\<close> matched at the start of \<open>s\<close>; group 1\<close>
  "match_padding s =
     (if startswith s ''padding-left:'' then
        (let r = dropWhile isspace (drop 13 s);
             ds = takeWhile isdigit r
         in if ds \<noteq> [] \<and> startswith (dropWhile isdigit r) ''px'' then Some ds else None)
      else None)"

fun search_padding :: "string \<Rightarrow> string option" where
  \<comment> \<open>\<open>re.search(r'padding-left:\s*(\d+)px', s)\<close>: the leftmost match\<close>
  "search_padding [] = None"
| "search_padding (c # cs) =
     (case match_padding (c # cs) of
        Some ds \<Rightarrow> Some ds
      | None \<Rightarrow> search_padding cs)"

section \<open>Browser handles\<close>

text \<open>
  A call on a Selenium handle either returns or raises (a stale handle, a lost session).
  What the scraper reads from a row is what the model of a row holds: the cells that each
  CSS selector finds in it, its text and its style attribute.
\<close>

datatype error = TimeoutException | WebDriverException | TypeError | RetryError

datatype 'a access = Raised error | Got 'a

fun first_found :: "(string \<Rightarrow> 'a list access) \<Rightarrow> string list \<Rightarrow> 'a list access" where
  \<comment> \<open>the loops \<open>for selector in selectors: elements = find_elements(selector);
      if elements: break\<close>: the first selector that finds something, else nothing\<close>
  "first_found find_elements [] = Got []"
| "first_found find_elements (selector # selectors) =
     (case find_elements selector of
        Raised e \<Rightarrow> Raised e
      | Got elements \<Rightarrow>
          if elements \<noteq> [] then Got elements else first_found find_elements selectors)"

type_synonym cell_element = "string access"
  \<comment> \<open>a cell handle: what reading its \<open>.text\<close> gives\<close>

record row_element =
  row_find_elements :: "string \<Rightarrow> cell_element list access"
  row_text :: "string access"
  row_style :: "string option access"

section \<open>Python lists on a heap\<close>

text \<open>
  The group stack is a Python list that \<open>expand_groups\<close> appends to in place and hands to the
  row parsers by reference, and every emitted record holds a list as its \<open>group_path\<close>.
  Lists of group names therefore live in a store, and a list value is its address.
\<close>

type_synonym addr = nat

record heap =
  lists :: "addr \<Rightarrow> string list"
  fresh :: addr

definition empty_heap :: heap where
  "empty_heap = \<lparr>lists = (\<lambda>_. []), fresh = 0\<rparr>"

definition new_list :: "heap \<Rightarrow> string list \<Rightarrow> heap \<times> addr" where
  \<comment> \<open>a new list object: \<open>[]\<close>, \<open>xs.copy()\<close>, \<open>xs[:n]\<close>\<close>
  "new_list h xs = (\<lparr>lists = (lists h)(fresh h := xs), fresh = Suc (fresh h)\<rparr>, fresh h)"

definition list_append :: "heap \<Rightarrow> addr \<Rightarrow> string \<Rightarrow> heap" where
  \<comment> \<open>\<open>xs.append(x)\<close>: in place\<close>
  "list_append h a x = h\<lparr>lists := (lists h)(a := lists h a @ [x])\<rparr>"

section \<open>Records of the flattener\<close>

record segment =
  segment_code :: string
  segment_desc :: string
  optionality :: string
  repeatability :: string
  is_group :: bool
  group_path :: addr
  level :: nat
  order_index :: nat

definition ui_tokens :: "string list" where
  "ui_tokens = [''chevron_right'', ''expand_more'', ''expand_less'']"

subsection \<open>\<open>_detect_hierarchy_level\<close>\<close>

definition padding_pixels :: "string option \<Rightarrow> nat" where
  \<comment> \<open>the digits of the padding-left declaration, 0 without one; the source builds
      the string \<open>digits + 'px'\<close>, removes \<open>'px'\<close> again and converts\<close>
  "padding_pixels style =
     (case style of
        None \<Rightarrow> 0
      | Some s \<Rightarrow>
          if s \<noteq> [] \<and> contains ''padding-left:'' s then
            (case search_padding s of Some ds \<Rightarrow> int_of_digits ds | None \<Rightarrow> 0)
          else 0)"

definition detect_hierarchy_level :: "heap \<Rightarrow> row_element \<Rightarrow> addr \<Rightarrow> heap \<times> nat \<times> addr" where
  "detect_hierarchy_level h row_element current_group_stack =
     (case row_style row_element of
        Raised e \<Rightarrow> (h, length (lists h current_group_stack), current_group_stack)
      | Got style \<Rightarrow>
          (let hierarchy_level = padding_pixels style div 16
           in if hierarchy_level < length (lists h current_group_stack) then
                (let (h1, trimmed) = new_list h (take hierarchy_level (lists h current_group_stack))
                 in (h1, hierarchy_level, trimmed))
              else (h, hierarchy_level, current_group_stack)))"

subsection \<open>\<open>_parse_row_text\<close>\<close>

definition text_is_group :: "string \<Rightarrow> bool" where
  "text_is_group seg_code =
     (isupper seg_code \<and> length seg_code > 3 \<and>
      \<not> list_ex (startswith seg_code)
          [''MSH'', ''EVN'', ''PID'', ''PV1'', ''NK1'', ''OBX'', ''ORC'', ''OBR'',
           ''RXE'', ''RXR'', ''RXA'', ''RXC''])"

definition scan_columns :: "string list \<Rightarrow> string \<times> string" where
  \<comment> \<open>the loop over \<open>lines[1:]\<close>: the last optionality and repeatability marks win\<close>
  "scan_columns ls =
     foldl (\<lambda>(optionality, repeatability) l.
              (let line = strip l
               in if line \<in> set [''R'', ''O'', ''C''] then (line, repeatability)
                  else if line \<in> set [''-'', infinity_sign, ''*''] then (optionality, line)
                  else (optionality, repeatability)))
           (''R'', ''-'') ls"

definition parse_row_text :: "heap \<Rightarrow> row_element \<Rightarrow> nat \<Rightarrow> addr \<Rightarrow> heap \<times> segment option" where
  \<comment> \<open>every exception is caught and gives \<open>None\<close>\<close>
  "parse_row_text h row_element order_idx group_stack =
     (case row_text row_element of
        Raised e \<Rightarrow> (h, None)
      | Got t \<Rightarrow>
          (let full_text = strip t
           in if full_text = [] then (h, None)
              else
                (let (h1, hierarchy_level, current_group_stack) =
                       detect_hierarchy_level h row_element group_stack
                 in if contains ''chevron_right'' full_text \<or> contains ''expand_more'' full_text then
                      (case find (\<lambda>line. line \<noteq> [] \<and> line \<notin> set ui_tokens)
                                 (map strip (split_lines full_text)) of
                         None \<Rightarrow> (h1, None)
                       | Some seg_code \<Rightarrow>
                           (let (h2, path) = new_list h1 (lists h1 current_group_stack)
                            in (h2, Some \<lparr>segment_code = seg_code,
                                          segment_desc = seg_code @ '' group'',
                                          optionality = ''R'',
                                          repeatability = ''inf'',
                                          is_group = True,
                                          group_path = path,
                                          level = hierarchy_level,
                                          order_index = order_idx\<rparr>)))
                    else if upper full_text \<in> set [''SEGMENT'', ''OPTIONALITY'', ''REPEATABILITY'']
                      then (h1, None)
                    else
                      (let lines = split_lines full_text;
                           first_line = strip (hd lines)
                       in if first_line = [] then (h1, None)
                          else
                            (let seg_desc0 =
                                   (case tl lines of
                                      [] \<Rightarrow> []
                                    | l # _ \<Rightarrow>
                                        (let second_line = strip l
                                         in if startswith second_line ''- ''
                                              then strip (drop 2 second_line)
                                            else if startswith second_line '' - ''
                                              then strip (drop 3 second_line)
                                            else []));
                                 (seg_code, seg_desc) =
                                   (if seg_desc0 = [] then
                                      (case split_first '' - '' first_line of
                                         Some (a, b) \<Rightarrow> (strip a, strip b)
                                       | None \<Rightarrow> (first_line, seg_desc0))
                                    else (first_line, seg_desc0))
                             in if seg_code = [] \<or> length seg_code < 2 \<or> seg_code \<in> set ui_tokens
                                  then (h1, None)
                                else
                                  (let (opt, rep) = scan_columns (tl lines);
                                       (h2, path) = new_list h1 (lists h1 current_group_stack)
                                   in (h2, Some \<lparr>segment_code = seg_code,
                                                 segment_desc = seg_desc,
                                                 optionality = opt,
                                                 repeatability = rep,
                                                 is_group = text_is_group seg_code,
                                                 group_path = path,
                                                 level = hierarchy_level,
                                                 order_index = order_idx\<rparr>)))))))"

subsection \<open>\<open>_extract_segment_from_row\<close>\<close>

definition cell_selectors :: "string list" where
  "cell_selectors = [''.tree-table-cell'', ''.cell'', ''.column'', ''td'', ''[class*='cell']'']"

record cell_vars =
  seg_code_v :: string
  seg_desc_v :: string
  optionality_v :: string
  repeatability_v :: string
  is_group_v :: bool

definition cell_is_group :: "string \<Rightarrow> bool" where
  "cell_is_group seg_code =
     (isupper seg_code \<and> length seg_code > 3 \<and>
      \<not> list_ex (startswith seg_code) [''MSH'', ''PID'', ''EVN''])"

fun cell_loop :: "nat \<Rightarrow> cell_element list \<Rightarrow> cell_vars \<Rightarrow> cell_vars option" where
  \<comment> \<open>\<open>for i, cell in enumerate(cells)\<close>; \<open>None\<close> when the loop returns \<open>None\<close> or a read raises\<close>
  "cell_loop i [] v = Some v"
| "cell_loop i (cell # cells) v =
     (case cell of
        Raised e \<Rightarrow> None
      | Got t \<Rightarrow>
          (let cell_text = strip t
           in if i = 0 then
                (let (seg_code, seg_desc) =
                       (case split_first '' - '' cell_text of
                          Some (a, b) \<Rightarrow> (strip a, strip b)
                        | None \<Rightarrow> (cell_text, []))
                 in if seg_code \<in> set (ui_tokens @ [[]]) then None
                    else cell_loop (Suc i) cells
                           (v\<lparr>seg_code_v := seg_code, seg_desc_v := seg_desc,
                              is_group_v := cell_is_group seg_code\<rparr>))
              else if i = 1 then
                cell_loop (Suc i) cells
                  (if cell_text \<in> set [''R'', ''O'', ''C''] then v\<lparr>optionality_v := cell_text\<rparr> else v)
              else if i = 2 then
                cell_loop (Suc i) cells
                  (if cell_text \<in> set [''-'', infinity_sign, ''*''] then v\<lparr>repeatability_v := cell_text\<rparr>
                   else v)
              else cell_loop (Suc i) cells v))"

definition extract_segment_from_row :: "heap \<Rightarrow> row_element \<Rightarrow> nat \<Rightarrow> addr \<Rightarrow> heap \<times> segment option" where
  \<comment> \<open>every exception is caught and gives \<open>None\<close>\<close>
  "extract_segment_from_row h row_element order_idx group_stack =
     (case first_found (row_find_elements row_element) cell_selectors of
        Raised e \<Rightarrow> (h, None)
      | Got cells \<Rightarrow>
          if cells = [] then parse_row_text h row_element order_idx group_stack
          else
            (case cell_loop 0 cells
                    \<lparr>seg_code_v = [], seg_desc_v = [], optionality_v = ''-'',
                     repeatability_v = ''-'', is_group_v = False\<rparr> of
               None \<Rightarrow> (h, None)
             | Some v \<Rightarrow>
                 if seg_code_v v = [] \<or> length (seg_code_v v) < 2 then (h, None)
                 else
                   (let (h1, path) = new_list h (lists h group_stack)
                    in (h1, Some \<lparr>segment_code = seg_code_v v,
                                  segment_desc = seg_desc_v v,
                                  optionality = optionality_v v,
                                  repeatability = repeatability_v v,
                                  is_group = is_group_v v,
                                  group_path = path,
                                  level = length (lists h group_stack),
                                  order_index = order_idx\<rparr>))))"

subsection \<open>The second pass of \<open>expand_groups\<close>\<close>

record flat_state =
  st_heap :: heap
  st_segments :: "segment list"
  st_order_index :: nat
  st_group_stack :: addr

definition flatten_row :: "row_element \<Rightarrow> flat_state \<Rightarrow> flat_state" where
  \<comment> \<open>the body of \<open>for segment_elem in segment_elements\<close>\<close>
  "flatten_row segment_elem st =
     (case extract_segment_from_row (st_heap st) segment_elem (st_order_index st) (st_group_stack st) of
        (h1, None) \<Rightarrow> st\<lparr>st_heap := h1\<rparr>
      | (h1, Some segment_data) \<Rightarrow>
          (let st1 = st\<lparr>st_heap := h1,
                        st_segments := st_segments st @ [segment_data],
                        st_order_index := st_order_index st + 1\<rparr>
           in if is_group segment_data then
                (let current_level = level segment_data;
                     (h2, stack) =
                       (if current_level < length (lists h1 (st_group_stack st))
                        then new_list h1 (take current_level (lists h1 (st_group_stack st)))
                        else (h1, st_group_stack st))
                 in st1\<lparr>st_heap := list_append h2 stack (segment_code segment_data),
                        st_group_stack := stack\<rparr>)
              else st1))"

definition flatten_rows :: "row_element list \<Rightarrow> flat_state \<Rightarrow> flat_state" where
  "flatten_rows segment_elements st = foldl (\<lambda>s row. flatten_row row s) st segment_elements"

definition flatten_init :: flat_state where
  \<comment> \<open>\<open>segments = []\<close>, \<open>order_index = 0\<close>, \<open>group_stack = []\<close>\<close>
  "flatten_init =
     (let (h, stack) = new_list empty_heap []
      in \<lparr>st_heap = h, st_segments = [], st_order_index = 0, st_group_stack = stack\<rparr>)"

definition path_of :: "flat_state \<Rightarrow> segment \<Rightarrow> string list" where
  \<comment> \<open>the list a record's \<open>group_path\<close> holds\<close>
  "path_of st r = lists (st_heap st) (group_path r)"

section \<open>The tree table\<close>

text \<open>
  The table handle and the handles found inside it are read through the browser. A
  \<open>dom\<close> is what the browser answers at one moment; it changes when a control is
  activated (the waits that follow a click are part of the activation). A \<open>browser\<close> tells,
  for each way of clicking, whether the call returned (\<open>True\<close>) or raised, and the table
  afterwards.
\<close>

type_synonym element = nat

record dom =
  find_css :: "string \<Rightarrow> element list access"
  find_xpath :: "string \<Rightarrow> element list access"
  table_text :: "string access"
  sub_css :: "element \<Rightarrow> string \<Rightarrow> element list access"
  attribute :: "element \<Rightarrow> string \<Rightarrow> string option access"
  text_of :: "element \<Rightarrow> string access"

datatype strategy = DirectClick | ScriptClick | ActionChainsClick

type_synonym browser = "strategy \<Rightarrow> element \<Rightarrow> dom \<Rightarrow> bool \<times> dom"

definition row_of :: "dom \<Rightarrow> element \<Rightarrow> row_element" where
  \<comment> \<open>a row handle as the row parsers read it\<close>
  "row_of d e =
     \<lparr>row_find_elements =
        (\<lambda>selector. case sub_css d e selector of
                       Raised x \<Rightarrow> Raised x
                     | Got cells \<Rightarrow> Got (map (text_of d) cells)),
      row_text = text_of d e,
      row_style = attribute d e ''style''\<rparr>"

subsection \<open>The first pass of \<open>expand_groups\<close>\<close>

definition max_attempts :: nat where
  "max_attempts = 15"

definition expandable_selectors :: "string list" where
  "expandable_selectors =
     [''button[aria-expanded='false']'',
      ''.tree-table-cell-content-with-button button'',
      ''[class*='chevron']'',
      ''[class*='expand']'',
      ''button'']"

definition chevron_xpath :: string where
  "chevron_xpath = ''.//*[contains(text(), 'chevron_right')]''"

definition clickable_xpath :: string where
  "clickable_xpath =
     ''.//button | .//*[@role='button'] | .//*[contains(@class, 'clickable')] | .//*[contains(@class, 'expand')]''"

definition chevron_row_controls :: "dom \<Rightarrow> element \<Rightarrow> element list" where
  \<comment> \<open>what one row of \<open>chevron_rows\<close> adds to \<open>expandables\<close>; an exception ends the \<open>try\<close>
      block and keeps what was added before it (\<open>in\<close> on a missing class attribute raises
      \<open>TypeError\<close>)\<close>
  "chevron_row_controls d row =
     (case sub_css d row ''button, [role='button'], [class*='expand'], [class*='chevron']'' of
        Raised e \<Rightarrow> []
      | Got buttons \<Rightarrow>
          (case attribute d row ''class'' of
             Raised e \<Rightarrow> buttons
           | Got None \<Rightarrow> buttons
           | Got (Some cls) \<Rightarrow>
               (let own = (if contains ''tree-table-cell-content-with-button'' cls then [row] else [])
                in case sub_css d row ''[class*='mat-icon-button']'' of
                     Raised e \<Rightarrow> buttons @ own
                   | Got mat_buttons \<Rightarrow> buttons @ own @ mat_buttons)))"

record expand_state =
  page :: dom
  attempt :: nat
  expanded_count :: nat
  any_expanded :: bool
  rounds :: nat
  activations :: "(strategy \<times> element) list"

text \<open>
  \<open>rounds\<close> and \<open>activations\<close> are not variables of the source: they count the executions of
  the loop body and record every click that is attempted, in order.
\<close>

definition activate :: "browser \<Rightarrow> strategy \<Rightarrow> element \<Rightarrow> expand_state \<Rightarrow> bool \<times> expand_state" where
  "activate click s el st =
     (let (ok, d) = click s el (page st)
      in (ok, st\<lparr>page := d, activations := activations st @ [(s, el)]\<rparr>))"

definition expand_button :: "browser \<Rightarrow> element \<Rightarrow> expand_state \<Rightarrow> expand_state" where
  \<comment> \<open>the body of \<open>for button in expandables\<close>; an exception before the clicks skips the
      button; the parent's text is read for the log only, inside its own \<open>try\<close>\<close>
  "expand_button click button st =
     (case attribute (page st) button ''aria-expanded'' of
        Raised e \<Rightarrow> st
      | Got aria_expanded \<Rightarrow>
          if aria_expanded = Some ''true'' then st
          else
            (case text_of (page st) button of
               Raised e \<Rightarrow> st
             | Got button_text \<Rightarrow>
                 (let (ok1, st1) = activate click DirectClick button st;
                      (ok2, st2) = (if \<not> ok1 then activate click ScriptClick button st1
                                    else (ok1, st1));
                      (click_success, st3) =
                                   (if \<not> ok2 then activate click ActionChainsClick button st2
                                    else (ok2, st2))
                  in if click_success
                       then st3\<lparr>expanded_count := expanded_count st3 + 1, any_expanded := True\<rparr>
                     else st3)))"

definition script_click :: "browser \<Rightarrow> element \<Rightarrow> expand_state \<Rightarrow> expand_state" where
  \<comment> \<open>the alternative and last-resort clicks: \<open>execute_script("arguments[0].click();", el)\<close>\<close>
  "script_click click el st =
     (let (ok, st1) = activate click ScriptClick el st
      in if ok then st1\<lparr>any_expanded := True, expanded_count := expanded_count st1 + 1\<rparr>
         else st1)"

definition expand_round :: "browser \<Rightarrow> expand_state \<Rightarrow> error + expand_state" where
  \<comment> \<open>the loop body up to the test \<open>if not any_expanded: break\<close>; the queries on the table
      handle are outside every \<open>try\<close>, so what they raise leaves \<open>expand_groups\<close>; the
      row counts are computed for the log only\<close>
  "expand_round click st =
     (case first_found (find_css (page st)) expandable_selectors of
        Raised e \<Rightarrow> Inl e
      | Got found \<Rightarrow>
          (case find_xpath (page st) chevron_xpath of
             Raised e \<Rightarrow> Inl e
           | Got chevron_rows \<Rightarrow>
               (let expandables = found @ concat (map (chevron_row_controls (page st)) chevron_rows);
                    st1 = foldl (\<lambda>s button. expand_button click button s)
                                (st\<lparr>any_expanded := False, rounds := rounds st + 1\<rparr>) expandables
                in case find_css (page st1) ''.flex-segment'' of
                     Raised e \<Rightarrow> Inl e
                   | Got current_rows \<Rightarrow>
                       (case find_xpath (page st1) chevron_xpath of
                          Raised e \<Rightarrow> Inl e
                        | Got remaining_chevrons \<Rightarrow>
                            if \<not> any_expanded st1 \<and> remaining_chevrons \<noteq> [] then
                              (let st2 = foldl (\<lambda>s chevron_row. script_click click chevron_row s)
                                               st1 (take 3 remaining_chevrons)
                               in case find_xpath (page st2) clickable_xpath of
                                    Raised e \<Rightarrow> Inl e
                                  | Got all_clickables \<Rightarrow>
                                      Inr (foldl (\<lambda>s clickable. script_click click clickable s)
                                                 st2 (take 5 all_clickables)))
                            else Inr st1))))"

function expand_loop :: "browser \<Rightarrow> expand_state \<Rightarrow> error + expand_state" where
  "expand_loop click st =
     (if attempt st < max_attempts then
        (case expand_round click st of
           Inl e \<Rightarrow> Inl e
         | Inr st1 \<Rightarrow>
             if \<not> any_expanded st1 then Inr st1
             else expand_loop click (st1\<lparr>attempt := attempt st + 1\<rparr>))
      else Inr st)"
  by pat_completeness auto
termination
  by (relation "measure (\<lambda>(click, st). max_attempts - attempt st)") auto

definition first_pass :: "browser \<Rightarrow> dom \<Rightarrow> error + expand_state" where
  "first_pass click table_element =
     expand_loop click
       \<lparr>page = table_element, attempt = 0, expanded_count = 0, any_expanded = False,
        rounds = 0, activations = []\<rparr>"

subsection \<open>\<open>_parse_table_text_fallback\<close>\<close>

definition first_word :: "string \<Rightarrow> string" where
  \<comment> \<open>\<open>line.split()[0]\<close>; empty when \<open>line.split()\<close> is empty\<close>
  "first_word line = takeWhile (\<lambda>c. \<not> isspace c) (dropWhile isspace line)"

definition fallback_line :: "string \<Rightarrow> heap \<times> segment list \<times> nat \<Rightarrow> heap \<times> segment list \<times> nat" where
  "fallback_line line acc =
     (case acc of (h, segments, order_idx) \<Rightarrow>
        if line = [] \<or> contains ''SEGMENT'' (upper line) \<or> contains ''OPTIONALITY'' (upper line)
          then acc
        else
          (let seg_code = first_word line
           in if seg_code \<in> set (ui_tokens @ [[]]) then acc
              else
                (let (h1, path) = new_list h []
                 in (h1,
                     segments @ [\<lparr>segment_code = seg_code, segment_desc = [],
                                   optionality = ''-'', repeatability = ''-'',
                                   is_group = False, group_path = path, level = 0,
                                   order_index = order_idx\<rparr>],
                     order_idx + 1))))"

definition parse_table_text_fallback :: "dom \<Rightarrow> heap \<times> segment list" where
  "parse_table_text_fallback table_element =
     (case table_text table_element of
        Raised e \<Rightarrow> (empty_heap, [])
      | Got t \<Rightarrow>
          (let lines = filter (\<lambda>line. line \<noteq> []) (map strip (split_lines (strip t)));
               (h, segments, order_idx) = foldl (\<lambda>acc line. fallback_line line acc)
                                                (empty_heap, [], 0) lines
           in (h, segments)))"

subsection \<open>\<open>expand_groups\<close>\<close>

definition row_selectors :: "string list" where
  "row_selectors = [''.flex-segment'', ''.tree-table-row'', ''[class*='row']'', ''tr'', ''.segment-row'']"

definition second_pass :: "dom \<Rightarrow> heap \<times> segment list" where
  "second_pass table_element =
     (case first_found (find_css table_element) row_selectors of
        Raised e \<Rightarrow> (empty_heap, [])
      | Got segment_elements \<Rightarrow>
          if segment_elements = [] then parse_table_text_fallback table_element
          else
            (let st = flatten_rows (map (row_of table_element) segment_elements) flatten_init
             in (st_heap st, st_segments st)))"

definition expand_groups :: "browser \<Rightarrow> dom \<Rightarrow> error + heap \<times> segment list" where
  "expand_groups click table_element =
     (case first_pass click table_element of
        Inl e \<Rightarrow> Inl e
      | Inr st \<Rightarrow> Inr (second_pass (page st)))"

section \<open>Retrying\<close>

text \<open>
  \<open>collect_event_urls\<close> and \<open>parse_event_page\<close> are wrapped by tenacity's
  \<open>retry(stop=stop_after_attempt(3), wait=wait_exponential(multiplier=1, min=2, max=10),
  retry=retry_if_exception_type(TimeoutException))\<close>: a call that raises
  \<open>TimeoutException\<close> is made again after a sleep, the third such failure raises
  \<open>RetryError\<close>, and every other exception leaves at once. An attempt is numbered from 1
  and may not return (\<open>None\<close>). The result comes with the sleeps that were made, in seconds.
\<close>

definition wait_exponential :: "nat \<Rightarrow> nat" where
  "wait_exponential attempt_number = max 2 (min (1 * 2 ^ (attempt_number - 1)) 10)"

fun retrying :: "nat \<Rightarrow> nat \<Rightarrow> (nat \<Rightarrow> (error + 'a) option) \<Rightarrow> ((error + 'a) \<times> nat list) option" where
  "retrying 0 attempt_number body = Some (Inl RetryError, [])"
| "retrying (Suc remaining) attempt_number body =
     (case body attempt_number of
        None \<Rightarrow> None
      | Some (Inr v) \<Rightarrow> Some (Inr v, [])
      | Some (Inl e) \<Rightarrow>
          if e \<noteq> TimeoutException then Some (Inl e, [])
          else if remaining = 0 then Some (Inl RetryError, [])
          else (case retrying remaining (Suc attempt_number) body of
                  None \<Rightarrow> None
                | Some (r, sleeps) \<Rightarrow> Some (r, wait_exponential attempt_number # sleeps)))"

definition retry :: "(nat \<Rightarrow> (error + 'a) option) \<Rightarrow> ((error + 'a) \<times> nat list) option" where
  "retry body = retrying 3 1 body"

section \<open>The index page\<close>

text \<open>
  What the browser shows for \<open>BASE_URL\<close> during one attempt of \<open>collect_event_urls\<close>:
  \<open>link_polls\<close> is the number of elements matching \<open>SEL_EVENT_LINKS\<close> at each poll of the
  first wait; \<open>links_at i top\<close> is the hrefs of the matching elements at iteration \<open>i\<close> of the
  scan, the viewport scrolled to \<open>top\<close>; \<open>body_height k\<close> is the document height read after
  scroll \<open>k\<close> of the fallback, and \<open>links_after n\<close> the hrefs read after \<open>n\<close> such scrolls.
\<close>

record index_page =
  page_load :: "unit access"
  link_polls :: "nat list"
  viewport_found :: bool
  scroll_height :: int
  client_height :: int
  links_at :: "nat \<Rightarrow> int \<Rightarrow> string option list access"
  links_at_bottom :: "string option list access"
  body_height :: "nat \<Rightarrow> int"
  links_after :: "nat \<Rightarrow> string option list access"

definition BASE_URL :: string where
  "BASE_URL = ''https://hl7-definition.caristix.com/v2/HL7v2.3/TriggerEvents''"

definition valid_url :: "string option \<Rightarrow> bool" where
  \<comment> \<open>\<open>url and url.rstrip('/') != BASE_URL and '/TriggerEvents/' in url\<close>\<close>
  "valid_url href =
     (case href of
        None \<Rightarrow> False
      | Some url \<Rightarrow> url \<noteq> [] \<and> rstrip_slash url \<noteq> BASE_URL \<and> contains ''/TriggerEvents/'' url)"

definition valid_urls :: "string option list \<Rightarrow> string set" where
  "valid_urls hrefs = set (map the (filter valid_url hrefs))"

record scroll_state =
  all_urls :: "string set"
  scroll_position :: int
  no_new_urls_count :: nat
  iterations :: nat

text \<open>\<open>iterations\<close> counts the executions of the loop body; it is not a variable of the source.\<close>

definition scroll_iteration :: "index_page \<Rightarrow> scroll_state \<Rightarrow> error + scroll_state" where
  "scroll_iteration p st =
     (case links_at p (iterations st) (scroll_position st) of
        Raised e \<Rightarrow> Inl e
      | Got hrefs \<Rightarrow>
          (let previous_count = card (all_urls st);
               urls = all_urls st \<union> valid_urls hrefs
           in Inr \<lparr>all_urls = urls,
                   scroll_position = scroll_position st + client_height p div 2,
                   no_new_urls_count =
                     (if card urls = previous_count then no_new_urls_count st + 1 else 0),
                   iterations = iterations st + 1\<rparr>))"

partial_function (option) scroll_loop :: "index_page \<Rightarrow> scroll_state \<Rightarrow> (error + scroll_state) option" where
  "scroll_loop p st =
     (if scroll_position st \<le> scroll_height p - client_height p \<and> no_new_urls_count st < 5 then
        (case scroll_iteration p st of
           Inl e \<Rightarrow> Some (Inl e)
         | Inr st1 \<Rightarrow> scroll_loop p st1)
      else Some (Inr st))"

definition scroll_init :: scroll_state where
  "scroll_init = \<lparr>all_urls = {}, scroll_position = 0, no_new_urls_count = 0, iterations = 0\<rparr>"

definition max_scrolls :: nat where
  "max_scrolls = 20"

function fallback_scroll :: "index_page \<Rightarrow> int \<Rightarrow> nat \<Rightarrow> nat" where
  \<comment> \<open>the scroll loop of \<open>_fallback_collect_urls\<close>; the result is the number of scrolls made\<close>
  "fallback_scroll p last_height scroll_attempts =
     (if scroll_attempts < max_scrolls then
        (let new_height = body_height p scroll_attempts
         in if new_height = last_height then Suc scroll_attempts
            else fallback_scroll p new_height (Suc scroll_attempts))
      else scroll_attempts)"
  by pat_completeness auto
termination
  by (relation "measure (\<lambda>(p, last_height, scroll_attempts). max_scrolls - scroll_attempts)") auto

definition fallback_collect_urls :: "index_page \<Rightarrow> error + string list" where
  "fallback_collect_urls p =
     (case links_after p (fallback_scroll p 0 0) of
        Raised e \<Rightarrow> Inl e
      | Got hrefs \<Rightarrow> Inr (sorted_list_of_set (valid_urls hrefs)))"

definition collect_event_urls_attempt :: "index_page \<Rightarrow> (error + string list) option" where
  \<comment> \<open>the body of \<open>collect_event_urls\<close>; \<open>close_cookie_banner\<close> catches what it raises and
      has no part in the result\<close>
  "collect_event_urls_attempt p =
     (case page_load p of
        Raised e \<Rightarrow> Some (Inl e)
      | Got _ \<Rightarrow>
          if \<not> list_ex (\<lambda>n. 0 < n) (link_polls p) then Some (Inl TimeoutException)
          else if \<not> viewport_found p then Some (fallback_collect_urls p)
          else
            (case scroll_loop p scroll_init of
               None \<Rightarrow> None
             | Some (Inl e) \<Rightarrow> Some (Inl e)
             | Some (Inr st) \<Rightarrow>
                 (case links_at_bottom p of
                    Raised e \<Rightarrow> Some (Inl e)
                  | Got final_hrefs \<Rightarrow>
                      Some (Inr (sorted_list_of_set (all_urls st \<union> valid_urls final_hrefs))))))"

definition collect_event_urls :: "(nat \<Rightarrow> index_page) \<Rightarrow> ((error + string list) \<times> nat list) option" where
  "collect_event_urls pages = retry (\<lambda>attempt_number. collect_event_urls_attempt (pages attempt_number))"

section \<open>Event pages and the run\<close>

record metadata =
  md_name :: string
  md_version :: string
  md_chapter :: string
  md_description :: string

text \<open>
  What the browser shows for an event URL during one attempt of \<open>parse_event_page\<close>:
  \<open>table_polls\<close> tells at each poll of the wait whether \<open>SEL_TABLE\<close> is present;
  \<open>read_metadata\<close> is the outcome of the title, description and chapter block, which
  raises only when its handler's read of the browser title does.
\<close>

record event_page =
  event_load :: "unit access"
  table_polls :: "bool list"
  read_metadata :: "metadata access"
  find_table :: "dom access"
  clicks :: browser

record event_data =
  ev_code :: string
  ev_metadata :: metadata
  ev_heap :: heap
  ev_segments :: "segment list"
  ev_segment_count :: nat

definition last_part :: "string \<Rightarrow> string" where
  \<comment> \<open>\<open>url.rstrip('/').split('/')[-1]\<close>\<close>
  "last_part url = rev (takeWhile (\<lambda>c. c \<noteq> CHR ''/'') (rev (rstrip_slash url)))"

definition parse_event_page_attempt :: "string \<Rightarrow> event_page \<Rightarrow> error + event_data option" where
  "parse_event_page_attempt url p =
     (case event_load p of
        Raised e \<Rightarrow> Inl e
      | Got _ \<Rightarrow>
          if \<not> list_ex (\<lambda>present. present) (table_polls p) then Inl TimeoutException
          else
            (case read_metadata p of
               Raised e \<Rightarrow> Inl e
             | Got m \<Rightarrow>
                 (case find_table p of
                    Raised e \<Rightarrow> Inr None
                  | Got table \<Rightarrow>
                      (case expand_groups (clicks p) table of
                         Inl e \<Rightarrow> Inr None
                       | Inr (h, segments) \<Rightarrow>
                           Inr (Some \<lparr>ev_code = last_part url, ev_metadata = m, ev_heap = h,
                                      ev_segments = segments,
                                      ev_segment_count = length segments\<rparr>)))))"

record world =
  driver_setup :: "unit access"
  index_pages :: "nat \<Rightarrow> index_page"
  event_pages :: "string \<Rightarrow> nat \<Rightarrow> event_page"
  save_event :: "string \<Rightarrow> unit access"
  master_save :: "unit access"

definition parse_event_page :: "world \<Rightarrow> string \<Rightarrow> ((error + event_data option) \<times> nat list) option" where
  "parse_event_page w url =
     retry (\<lambda>attempt_number. Some (parse_event_page_attempt url (event_pages w url attempt_number)))"

record run_state =
  processed_events :: "string set"
  all_data :: "event_data list"
  failed :: "string list"

text \<open>\<open>failed\<close> is the codes that \<open>run\<close> logs with "Failed to process", in order.\<close>

definition process_url :: "world \<Rightarrow> string \<Rightarrow> run_state \<Rightarrow> run_state option" where
  \<comment> \<open>the body of \<open>for i, url in enumerate(urls, 1)\<close>\<close>
  "process_url w url st =
     (let code = last_part url
      in if code \<in> processed_events st then Some st
         else
           (case parse_event_page w url of
              None \<Rightarrow> None
            | Some (Inl e, sleeps) \<Rightarrow> Some (st\<lparr>failed := failed st @ [code]\<rparr>)
            | Some (Inr None, sleeps) \<Rightarrow> Some st
            | Some (Inr (Some data), sleeps) \<Rightarrow>
                (case save_event w (ev_code data) of
                   Raised e \<Rightarrow> Some (st\<lparr>failed := failed st @ [code]\<rparr>)
                 | Got _ \<Rightarrow>
                     Some (st\<lparr>all_data := all_data st @ [data],
                              processed_events := insert code (processed_events st)\<rparr>))))"

fun process_urls :: "world \<Rightarrow> string list \<Rightarrow> run_state \<Rightarrow> run_state option" where
  "process_urls w [] st = Some st"
| "process_urls w (url # urls) st =
     (case process_url w url st of
        None \<Rightarrow> None
      | Some st1 \<Rightarrow> process_urls w urls st1)"

definition slice_to :: "int \<Rightarrow> 'a list \<Rightarrow> 'a list" where
  \<comment> \<open>\<open>xs[:n]\<close>\<close>
  "slice_to n xs = (if n < 0 then take (nat (int (length xs) + n)) xs else take (nat n) xs)"

definition run :: "world \<Rightarrow> string set \<Rightarrow> int option \<Rightarrow> (error + run_state) option" where
  \<comment> \<open>\<open>existing\<close> is the codes already saved when resuming, empty otherwise\<close>
  "run w existing limit =
     (case driver_setup w of
        Raised e \<Rightarrow> Some (Inl e)
      | Got _ \<Rightarrow>
          (case collect_event_urls (index_pages w) of
             None \<Rightarrow> None
           | Some (Inl e, sleeps) \<Rightarrow> Some (Inl e)
           | Some (Inr found, sleeps) \<Rightarrow>
               (let urls = (case limit of
                              None \<Rightarrow> found
                            | Some n \<Rightarrow> if n = 0 then found else slice_to n found)
                in case process_urls w urls
                          \<lparr>processed_events = existing, all_data = [], failed = []\<rparr> of
                     None \<Rightarrow> None
                   | Some st \<Rightarrow>
                       (case master_save w of
                          Raised e \<Rightarrow> Some (Inl e)
                        | Got _ \<Rightarrow> Some (Inr st)))))"

section \<open>Predicates of the proofs\<close>

definition heap_extends :: "heap \<Rightarrow> heap \<Rightarrow> bool" where
  \<comment> \<open>\<open>h'\<close> has every list of \<open>h\<close>, unchanged, and possibly new ones\<close>
  "heap_extends h h' = (fresh h \<le> fresh h' \<and> (\<forall>a<fresh h. lists h' a = lists h a))"

definition flat_inv :: "flat_state \<Rightarrow> bool" where
  \<comment> \<open>the group stack and the paths of the emitted records are allocated, and no record
      shares its path with the group stack\<close>
  "flat_inv st =
     (st_group_stack st < fresh (st_heap st) \<and>
      list_all (\<lambda>r. group_path r < fresh (st_heap st) \<and> group_path r \<noteq> st_group_stack st)
               (st_segments st))"

definition scans_left :: "index_page \<Rightarrow> scroll_state \<Rightarrow> nat" where
  \<comment> \<open>how many scan iterations the scroll position still allows\<close>
  "scans_left p st =
     (if scroll_position st \<le> scroll_height p - client_height p
      then nat ((scroll_height p - client_height p - scroll_position st) div (client_height p div 2)) + 1
      else 0)"

fun scan_steps :: "nat \<Rightarrow> index_page \<Rightarrow> scroll_state \<Rightarrow> error + scroll_state" where
  \<comment> \<open>the body of the scan loop executed \<open>n\<close> times in a row, up to the first exception\<close>
  "scan_steps 0 p st = Inr st"
| "scan_steps (Suc n) p st =
     (case scroll_iteration p st of
        Inl e \<Rightarrow> Inl e
      | Inr st1 \<Rightarrow> scan_steps n p st1)"

definition no_valid_links :: "index_page \<Rightarrow> bool" where
  \<comment> \<open>every read of the links returns, and no href it returns passes the URL filter\<close>
  "no_valid_links p =
     ((\<forall>i top. \<exists>hrefs. links_at p i top = Got hrefs \<and> valid_urls hrefs = {}) \<and>
      (\<exists>hrefs. links_at_bottom p = Got hrefs \<and> valid_urls hrefs = {}) \<and>
      (\<forall>n. \<exists>hrefs. links_after p n = Got hrefs \<and> valid_urls hrefs = {}))"

definition table_answers :: "dom \<Rightarrow> bool" where
  \<comment> \<open>every query on the table handle itself returns\<close>
  "table_answers d =
     ((\<forall>selector. \<exists>elements. find_css d selector = Got elements) \<and>
      (\<forall>path. \<exists>elements. find_xpath d path = Got elements))"

definition keeps_answering :: "browser \<Rightarrow> bool" where
  \<comment> \<open>no click makes the table handle fail: after it, the queries on the handle still
      return\<close>
  "keeps_answering click =
     (\<forall>s el d. table_answers d \<longrightarrow> table_answers (snd (click s el d)))"

section \<open>Example rows\<close>

definition text_row :: "string \<Rightarrow> string option \<Rightarrow> row_element" where
  \<comment> \<open>a row in which no cell selector finds anything, with its text and style attribute\<close>
  "text_row t style = \<lparr>row_find_elements = (\<lambda>selector. Got []), row_text = Got t, row_style = Got style\<rparr>"

definition cell_row :: "string list \<Rightarrow> row_element" where
  \<comment> \<open>a row whose cells are found by the selector \<open>td\<close>\<close>
  "cell_row cells =
     \<lparr>row_find_elements = (\<lambda>selector. if selector = ''td'' then Got (map Got cells) else Got []),
      row_text = Got (concat cells), row_style = Got None\<rparr>"

section \<open>Example pages\<close>

definition index_page_with :: "nat list \<Rightarrow> string option list \<Rightarrow> index_page" where
  \<comment> \<open>an index page with a virtual-scroll viewport of height 500 over 5000 pixels of
      content that always shows the same links\<close>
  "index_page_with polls hrefs =
     \<lparr>page_load = Got (), link_polls = polls, viewport_found = True,
      scroll_height = 5000, client_height = 500,
      links_at = (\<lambda>i top. Got hrefs), links_at_bottom = Got hrefs,
      body_height = (\<lambda>k. 5000), links_after = (\<lambda>n. Got hrefs)\<rparr>"

definition late_link_page :: index_page where
  \<comment> \<open>the same viewport; one link is mounted at the third iteration of the scan only\<close>
  "late_link_page =
     (index_page_with [1] [])
       \<lparr>links_at := (\<lambda>i top. if i = 2 then Got [Some (BASE_URL @ ''/ADT_A01'')] else Got [])\<rparr>"

definition event_names :: "string list" where
  "event_names =
     [''A01'', ''A02'', ''A03'', ''A04'', ''A05'', ''A06'', ''A07'', ''A08'', ''A09'', ''A10'',
      ''A11'', ''A12'', ''A13'', ''A14'', ''A15'', ''A16'', ''A17'', ''A18'', ''A19'']"

definition windowed_page :: index_page where
  \<comment> \<open>the same viewport; at each scroll offset one link is mounted, a different one every
      250 pixels\<close>
  "windowed_page =
     (index_page_with [1] [])
       \<lparr>links_at := (\<lambda>i top. if 0 \<le> top \<and> top < 4750
                                then Got [Some (BASE_URL @ ''/'' @ event_names ! nat (top div 250))]
                                else Got [])\<rparr>"

definition no_link_pages :: "nat \<Rightarrow> index_page" where
  \<comment> \<open>on every attempt, a page on which no element matches the link selector\<close>
  "no_link_pages attempt_number = index_page_with [0, 0, 0] []"



section \<open>Example tables\<close>

definition bare_table :: dom where
  \<comment> \<open>a table in which no query finds anything\<close>
  "bare_table =
     \<lparr>find_css = (\<lambda>selector. Got []), find_xpath = (\<lambda>path. Got []), table_text = Got [],
      sub_css = (\<lambda>e selector. Got []), attribute = (\<lambda>e name. Got None),
      text_of = (\<lambda>e. Got [])\<rparr>"




definition stale_table :: dom where
  \<comment> \<open>a table handle that has gone stale: every call raises\<close>
  "stale_table =
     \<lparr>find_css = (\<lambda>selector. Raised WebDriverException),
      find_xpath = (\<lambda>path. Raised WebDriverException),
      table_text = Raised WebDriverException,
      sub_css = (\<lambda>e selector. Raised WebDriverException),
      attribute = (\<lambda>e name. Raised WebDriverException),
      text_of = (\<lambda>e. Raised WebDriverException)\<rparr>"

definition stubborn_table :: dom where
  \<comment> \<open>a table with one collapsed control, element 0\<close>
  "stubborn_table =
     bare_table
       \<lparr>find_css := (\<lambda>selector. if selector = ''button[aria-expanded='false']'' then Got [0]
                                else Got []),
        attribute := (\<lambda>e name. if name = ''aria-expanded'' then Got (Some ''false'') else Got None)\<rparr>"

definition resisting_browser :: browser where
  \<comment> \<open>every click raises and leaves the table as it is\<close>
  "resisting_browser s el d = (False, d)"

definition breaking_browser :: browser where
  \<comment> \<open>every click raises and leaves the table handle stale\<close>
  "breaking_browser s el d = (False, stale_table)"

section \<open>The row parsers and the heap\<close>

lemma heap_extends_refl: "heap_extends h h"
  by (simp add: heap_extends_def)

lemma heap_extends_trans: "heap_extends h1 h2 \<Longrightarrow> heap_extends h2 h3 \<Longrightarrow> heap_extends h1 h3"
  by (auto simp: heap_extends_def)

lemma new_list_spec:
  "new_list h xs = (h', a) \<Longrightarrow>
     heap_extends h h' \<and> a = fresh h \<and> fresh h' = Suc (fresh h) \<and> lists h' a = xs"
  by (auto simp: new_list_def heap_extends_def)

lemma detect_hierarchy_level_spec:
  assumes "detect_hierarchy_level h row gs = (h1, lv, cgs)" 
  shows "heap_extends h h1 \<and> lists h1 cgs = take lv (lists h gs) \<and> (gs < fresh h \<longrightarrow> cgs < fresh h1)"
  using assms
  by (auto simp: detect_hierarchy_level_def Let_def new_list_def heap_extends_def
           split: access.splits if_splits)

lemma parse_row_text_heap:
  "parse_row_text h row oi gs = (h', res) \<Longrightarrow> heap_extends h h'"
  by (auto simp: parse_row_text_def Let_def heap_extends_refl
           split: access.splits if_splits prod.splits option.splits list.splits
           dest!: new_list_spec detect_hierarchy_level_spec
           intro: heap_extends_trans)

lemma parse_row_text_Some:
  "parse_row_text h row oi gs = (h', Some r) \<Longrightarrow> 
     fresh h \<le> group_path r \<and> group_path r < fresh h' \<and> order_index r = oi \<and>
     lists h' (group_path r) = take (level r) (lists h gs)"
  by (auto simp: parse_row_text_def Let_def heap_extends_def
           split: access.splits if_splits prod.splits option.splits list.splits
           dest!: new_list_spec detect_hierarchy_level_spec)

lemma extract_segment_heap:
  "extract_segment_from_row h row oi gs = (h', res) \<Longrightarrow> heap_extends h h'"
  by (auto simp: extract_segment_from_row_def Let_def heap_extends_refl
           split: access.splits if_splits prod.splits option.splits
           dest: new_list_spec parse_row_text_heap)

lemma extract_segment_Some:
  "extract_segment_from_row h row oi gs = (h', Some r) \<Longrightarrow>
     fresh h \<le> group_path r \<and> group_path r < fresh h' \<and> order_index r = oi \<and>
     lists h' (group_path r) = take (level r) (lists h gs)"
  by (auto simp: extract_segment_from_row_def Let_def
           split: access.splits if_splits prod.splits option.splits
           dest: new_list_spec parse_row_text_Some)

lemma flatten_row_None:
  assumes "extract_segment_from_row (st_heap st) row (st_order_index st) (st_group_stack st) = (h1, None)"
  shows "flatten_row row st = st\<lparr>st_heap := h1\<rparr>"
  using assms by (simp add: flatten_row_def)

lemma flatten_row_segments:
  "\<exists>new. st_segments (flatten_row row st) = st_segments st @ new \<and> length new \<le> 1 \<and>
         st_order_index (flatten_row row st) = st_order_index st + length new \<and>
         list_all (\<lambda>r. order_index r = st_order_index st) new"
  by (auto simp: flatten_row_def Let_def split: prod.splits option.splits dest: extract_segment_Some)

lemma flatten_row_frame:
  assumes "a < fresh (st_heap st)" and "a \<noteq> st_group_stack st"
  shows "lists (st_heap (flatten_row row st)) a = lists (st_heap st) a"
  using assms
  by (auto simp: flatten_row_def Let_def list_append_def heap_extends_def 
           split: prod.splits option.splits if_splits
           dest!: extract_segment_heap new_list_spec)

lemma flatten_row_fresh:
  "fresh (st_heap st) \<le> fresh (st_heap (flatten_row row st))"
  by (auto simp: flatten_row_def Let_def list_append_def heap_extends_def 
           split: prod.splits option.splits if_splits
           dest!: extract_segment_heap new_list_spec)

lemma flatten_row_inv:
  assumes inv: "flat_inv st"
  shows "flat_inv (flatten_row row st)"
proof -
  obtain h1 res where
    ex: "extract_segment_from_row (st_heap st) row (st_order_index st) (st_group_stack st) = (h1, res)"
    by fastforce
  have ext: "fresh (st_heap st) \<le> fresh h1"
    using extract_segment_heap [OF ex] by (simp add: heap_extends_def)
  show ?thesis
  proof (cases res)
    case None
    with ex have "flatten_row row st = st\<lparr>st_heap := h1\<rparr>"
      by (simp add: flatten_row_def)
    with inv ext show ?thesis
      by (auto simp: flat_inv_def list_all_iff)
  next
    case (Some r)
    with ex have r: "fresh (st_heap st) \<le> group_path r" "group_path r < fresh h1"
      using extract_segment_Some by blast+
    from Some ex inv ext r show ?thesis
      by (auto simp: flatten_row_def Let_def flat_inv_def list_all_iff list_append_def new_list_def
               split: if_splits)
  qed
qed

lemma flatten_rows_Nil: "flatten_rows [] st = st"
  by (simp add: flatten_rows_def)

lemma flatten_rows_Cons: "flatten_rows (row # rows) st = flatten_rows rows (flatten_row row st)"
  by (simp add: flatten_rows_def)

lemma flatten_rows_append: "flatten_rows (rows1 @ rows2) st = flatten_rows rows2 (flatten_rows rows1 st)"
  by (simp add: flatten_rows_def)

lemma flatten_rows_inv: "flat_inv st \<Longrightarrow> flat_inv (flatten_rows rows st)"
  by (induction rows arbitrary: st) (simp_all add: flatten_rows_Nil flatten_rows_Cons flatten_row_inv)

lemma flat_inv_init: "flat_inv flatten_init"
  by (simp add: flat_inv_def flatten_init_def new_list_def empty_heap_def)

lemma flatten_rows_prefix: "prefix (st_segments st) (st_segments (flatten_rows rows st))"
proof (induction rows arbitrary: st)
  case Nil
  show ?case by (simp add: flatten_rows_Nil)
next
  case (Cons row rows)
  obtain new where "st_segments (flatten_row row st) = st_segments st @ new"
    using flatten_row_segments by blast
  then have "prefix (st_segments st) (st_segments (flatten_row row st))"
    by simp
  with Cons [of "flatten_row row st"] show ?case
    by (auto simp: flatten_rows_Cons intro: prefix_order.trans)
qed

lemma flatten_rows_paths_kept:
  assumes "flat_inv st" and "r \<in> set (st_segments st)"
  shows "path_of (flatten_rows rows st) r = path_of st r"
  using assms
proof (induction rows arbitrary: st)
  case Nil
  show ?case by (simp add: flatten_rows_Nil)
next
  case (Cons row rows)
  from Cons.prems have a: "group_path r < fresh (st_heap st)" "group_path r \<noteq> st_group_stack st"
    by (auto simp: flat_inv_def list_all_iff)
  have "r \<in> set (st_segments (flatten_row row st))"
    using flatten_row_segments [of row st] Cons.prems(2) by auto
  with Cons.IH [of "flatten_row row st"] Cons.prems(1)
  have "path_of (flatten_rows rows (flatten_row row st)) r = path_of (flatten_row row st) r"
    by (simp add: flatten_row_inv)
  also have "\<dots> = path_of st r"
    using flatten_row_frame [OF a] by (simp add: path_of_def)
  finally show ?case by (simp add: flatten_rows_Cons)
qed

lemma flatten_rows_order:
  assumes "map order_index (st_segments st) = [0..<st_order_index st]"
  shows "map order_index (st_segments (flatten_rows rows st)) = [0..<st_order_index (flatten_rows rows st)]"
  using assms
proof (induction rows arbitrary: st)
  case Nil
  then show ?case by (simp add: flatten_rows_Nil)
next
  case (Cons row rows)
  obtain new where new: "st_segments (flatten_row row st) = st_segments st @ new" "length new \<le> 1"
         "st_order_index (flatten_row row st) = st_order_index st + length new"
         "list_all (\<lambda>r. order_index r = st_order_index st) new"
    using flatten_row_segments by blast
  have "map order_index (st_segments (flatten_row row st)) = [0..<st_order_index (flatten_row row st)]"
  proof (cases new)
    case Nil
    with new Cons.prems show ?thesis by simp
  next
    case (Cons r rs)
    with new have "rs = []" by simp
    with Cons new Cons.prems show ?thesis by simp
  qed
  then show ?case
    using Cons.IH by (simp add: flatten_rows_Cons)
qed

lemma flatten_rows_count:
  "length (st_segments (flatten_rows rows st)) \<le> length (st_segments st) + length rows"
proof (induction rows arbitrary: st)
  case Nil
  show ?case by (simp add: flatten_rows_Nil)
next
  case (Cons row rows)
  obtain new where "st_segments (flatten_row row st) = st_segments st @ new" "length new \<le> 1"
    using flatten_row_segments by blast
  with Cons [of "flatten_row row st"] show ?case
    by (simp add: flatten_rows_Cons)
qed

lemma cell_loop_keeps_code:
  "cell_loop i cells v = Some v' \<Longrightarrow> 0 < i \<Longrightarrow> seg_code_v v' = seg_code_v v"
proof (induction cells arbitrary: i v)
  case Nil
  then show ?case by simp
next
  case (Cons c cells)
  then show ?case
    by (cases c) (auto simp: Let_def split: if_splits)
qed

lemma cell_loop_first_code:
  assumes "cell_loop 0 (c # cells) v = Some v'"
  shows "seg_code_v v' \<noteq> [] \<and> seg_code_v v' \<notin> set ui_tokens"
proof (cases c)
  case (Raised e)
  with assms show ?thesis by simp
next
  case (Got t)
  with assms obtain v1 where
    v1: "cell_loop (Suc 0) cells v1 = Some v'"
        "seg_code_v v1 \<noteq> [] \<and> seg_code_v v1 \<notin> set ui_tokens"
    by (auto simp: Let_def split: if_splits option.splits prod.splits)
  from cell_loop_keeps_code [OF v1(1)] v1(2) show ?thesis by simp
qed

lemma cell_loop_first_None:
  assumes "strip t \<in> set ([] # ui_tokens)"
  shows "cell_loop 0 (Got t # cells) v = None"
proof -
  have "split_first '' - '' (strip t) = None"
    using assms by (auto simp: ui_tokens_def startswith_def)
  with assms show ?thesis by (auto simp: Let_def)
qed

lemma parse_row_text_code:
  assumes "parse_row_text h row oi gs = (h', Some r)"
  shows "segment_code r \<noteq> [] \<and> segment_code r \<notin> set ui_tokens \<and>
         (2 \<le> length (segment_code r) \<or>
          (\<exists>t. row_text row = Got t \<and>
               (contains ''chevron_right'' (strip t) \<or> contains ''expand_more'' (strip t))))"
  using assms
  by (auto simp: parse_row_text_def Let_def
           split: access.splits if_splits prod.splits option.splits list.splits
           dest!: find_Some_iff [THEN iffD1])

lemma contains_self: "contains s s"
  by (cases s) (simp_all add: startswith_def)

lemma parse_row_text_blank:
  assumes "row_text row = Got t" and "strip t \<in> set ([] # ui_tokens)"
  shows "snd (parse_row_text h row oi gs) = None"
proof -
  consider "strip t = []" | "strip t = ''chevron_right''" | "strip t = ''expand_more''"
    | "strip t = ''expand_less''"
    using assms(2) by (auto simp: ui_tokens_def)
  then show ?thesis
  proof cases
    case 1
    with assms(1) show ?thesis by (simp add: parse_row_text_def)
  next
    case 2
    with assms(1) show ?thesis
      by (simp add: parse_row_text_def Let_def startswith_def strip_def isspace_def ord_def
                    ui_tokens_def split: prod.splits)
  next
    case 3
    with assms(1) show ?thesis
      by (simp add: parse_row_text_def Let_def startswith_def strip_def isspace_def ord_def
                    ui_tokens_def split: prod.splits)
  next
    case 4
    with assms(1) show ?thesis
      by (simp add: parse_row_text_def Let_def startswith_def strip_def isspace_def ord_def
                    ui_tokens_def upper_def is_lower_char_def split: prod.splits)
  qed
qed

lemma flatten_row_emits:
  assumes "st_segments (flatten_row row st) = st_segments st @ [r]"
  obtains h1 where
    "extract_segment_from_row (st_heap st) row (st_order_index st) (st_group_stack st) = (h1, Some r)"
proof -
  obtain h1 res where
    ex: "extract_segment_from_row (st_heap st) row (st_order_index st) (st_group_stack st) = (h1, res)"
    by fastforce
  show ?thesis
  proof (cases res)
    case None
    with ex assms show ?thesis by (simp add: flatten_row_def)
  next
    case (Some r')
    with ex assms have "r' = r"
      by (simp add: flatten_row_def Let_def split: if_splits prod.splits)
    with Some ex that show ?thesis by simp
  qed
qed

lemma flatten_row_path:
  assumes inv: "flat_inv st"
    and emit: "st_segments (flatten_row row st) = st_segments st @ [r]"
  shows "path_of (flatten_row row st) r = take (level r) (lists (st_heap st) (st_group_stack st))"
proof -
  obtain h1 where
    ex: "extract_segment_from_row (st_heap st) row (st_order_index st) (st_group_stack st) = (h1, Some r)"
    using emit by (rule flatten_row_emits)
  note spec = extract_segment_Some [OF ex]
  from inv have gs: "st_group_stack st < fresh (st_heap st)"
    by (simp add: flat_inv_def)
  with spec have ne: "group_path r \<noteq> st_group_stack st" by simp
  from ex spec ne show ?thesis
    by (auto simp: flatten_row_def Let_def path_of_def list_append_def new_list_def
             split: if_splits)
qed

lemma flatten_row_stack:
  assumes inv: "flat_inv st"
    and emit: "st_segments (flatten_row row st) = st_segments st @ [r]"
  shows "lists (st_heap (flatten_row row st)) (st_group_stack (flatten_row row st)) =
           (if is_group r
            then take (level r) (lists (st_heap st) (st_group_stack st)) @ [segment_code r]
            else lists (st_heap st) (st_group_stack st))"
proof -
  obtain h1 where
    ex: "extract_segment_from_row (st_heap st) row (st_order_index st) (st_group_stack st) = (h1, Some r)"
    using emit by (rule flatten_row_emits)
  from inv have gs: "st_group_stack st < fresh (st_heap st)"
    by (simp add: flat_inv_def)
  from extract_segment_heap [OF ex] gs
  have same: "lists h1 (st_group_stack st) = lists (st_heap st) (st_group_stack st)"
    by (simp add: heap_extends_def)
  from ex same show ?thesis
    by (auto simp: flatten_row_def Let_def list_append_def new_list_def split: if_splits)
qed

lemma flatten_row_skip:
  assumes "snd (extract_segment_from_row (st_heap st) row (st_order_index st) (st_group_stack st)) = None"
    and "st_group_stack st < fresh (st_heap st)"
  shows "st_segments (flatten_row row st) = st_segments st \<and>
         st_order_index (flatten_row row st) = st_order_index st \<and>
         st_group_stack (flatten_row row st) = st_group_stack st \<and>
         lists (st_heap (flatten_row row st)) (st_group_stack st) = lists (st_heap st) (st_group_stack st)"
proof -
  obtain h1 where
    ex: "extract_segment_from_row (st_heap st) row (st_order_index st) (st_group_stack st) = (h1, None)"
    using assms(1) by (metis prod.collapse)
  from extract_segment_heap [OF ex] assms(2) ex show ?thesis
    by (simp add: flatten_row_def heap_extends_def)
qed

lemma extract_blank:
  assumes "(first_found (row_find_elements row) cell_selectors = Got [] \<and> row_text row = Got t) \<or>
           (\<exists>cells. first_found (row_find_elements row) cell_selectors = Got (Got t # cells))"
    and "strip t \<in> set ([] # ui_tokens)"
  shows "snd (extract_segment_from_row h row oi gs) = None"
  using assms
  by (auto simp: extract_segment_from_row_def cell_loop_first_None parse_row_text_blank
           simp del: cell_loop.simps)

lemma extract_code:
  assumes "extract_segment_from_row h row oi gs = (h', Some r)"
  shows "segment_code r \<noteq> [] \<and> segment_code r \<notin> set ui_tokens \<and>
         (2 \<le> length (segment_code r) \<or>
          (first_found (row_find_elements row) cell_selectors = Got [] \<and>
           (\<exists>t. row_text row = Got t \<and>
               (contains ''chevron_right'' (strip t) \<or> contains ''expand_more'' (strip t)))))"
proof (cases "first_found (row_find_elements row) cell_selectors")
  case (Raised e)
  with assms show ?thesis by (simp add: extract_segment_from_row_def)
next
  case (Got cells)
  show ?thesis
  proof (cases cells)
    case Nil
    with Got assms have "parse_row_text h row oi gs = (h', Some r)"
      by (simp add: extract_segment_from_row_def)
    from parse_row_text_code [OF this] Got Nil show ?thesis by simp
  next
    case (Cons c cs)
    with Got assms obtain v where
      v: "cell_loop 0 (c # cs) \<lparr>seg_code_v = [], seg_desc_v = [], optionality_v = ''-'',
                     repeatability_v = ''-'', is_group_v = False\<rparr> = Some v"
         "segment_code r = seg_code_v v" "2 \<le> length (seg_code_v v)"
      by (auto simp: extract_segment_from_row_def Let_def new_list_def
               simp del: cell_loop.simps split: option.splits if_splits)
    from cell_loop_first_code [OF v(1)] v(2,3) show ?thesis by simp
  qed
qed

lemmas flat_eval =
  flatten_rows_def flatten_row_def flatten_init_def extract_segment_from_row_def
  parse_row_text_def detect_hierarchy_level_def padding_pixels_def match_padding_def
  int_of_digits_def text_row_def cell_row_def cell_selectors_def new_list_def list_append_def
  empty_heap_def ui_tokens_def strip_def isspace_def isdigit_def ord_def startswith_def
  isupper_def is_upper_char_def is_lower_char_def upper_def text_is_group_def cell_is_group_def
  scan_columns_def infinity_sign_def path_of_def Let_def

lemma reachable_inv: "flat_inv (flatten_rows rows flatten_init)"
  by (simp add: flatten_rows_inv flat_inv_init)

lemma fallback_line_order:
  assumes "fallback_line line (h, segs, n) = (h', segs', n')"
    and "map order_index segs = [0..<n]"
  shows "map order_index segs' = [0..<n']"
  using assms
  by (auto simp: fallback_line_def Let_def new_list_def split: if_splits)

lemma fallback_fold_order:
  assumes "foldl (\<lambda>acc line. fallback_line line acc) (h, segs, n) ls = (h', segs', n')"
    and "map order_index segs = [0..<n]"
  shows "map order_index segs' = [0..<n']"
  using assms
proof (induction ls arbitrary: h segs n)
  case Nil
  then show ?case by simp
next
  case (Cons l ls)
  obtain h1 segs1 n1 where s: "fallback_line l (h, segs, n) = (h1, segs1, n1)"
    by (metis prod_cases3)
  from fallback_line_order [OF s Cons.prems(2)] have "map order_index segs1 = [0..<n1]" .
  with Cons.IH [of h1 segs1 n1] Cons.prems(1) s show ?case by simp
qed

lemma parse_table_text_fallback_order:
  "map order_index (snd (parse_table_text_fallback d)) =
     [0..<length (snd (parse_table_text_fallback d))]"
proof (cases "table_text d")
  case (Raised e)
  then show ?thesis by (simp add: parse_table_text_fallback_def)
next
  case (Got t)
  obtain h segs n where
    f: "foldl (\<lambda>acc line. fallback_line line acc) (empty_heap, [], 0)
          (filter (\<lambda>line. line \<noteq> []) (map strip (split_lines (strip t)))) = (h, segs, n)"
    by (metis prod_cases3)
  from fallback_fold_order [OF f] have m: "map order_index segs = [0..<n]" by simp
  then have "length segs = n"
    by (metis length_map length_upt minus_nat.diff_0)
  with m Got f show ?thesis
    by (simp add: parse_table_text_fallback_def Let_def)
qed

lemma flatten_rows_order_init:
  "map order_index (st_segments (flatten_rows rows flatten_init)) =
     [0..<length (st_segments (flatten_rows rows flatten_init))]"
proof -
  have "map order_index (st_segments flatten_init) = [0..<st_order_index flatten_init]"
    by (simp add: flatten_init_def new_list_def)
  from flatten_rows_order [OF this, of rows]
  have m: "map order_index (st_segments (flatten_rows rows flatten_init)) =
             [0..<st_order_index (flatten_rows rows flatten_init)]" .
  then have "length (st_segments (flatten_rows rows flatten_init)) =
             st_order_index (flatten_rows rows flatten_init)"
    by (metis length_map length_upt minus_nat.diff_0)
  with m show ?thesis by simp
qed

section \<open>The flattener\<close>

text \<open>
  Claim C2, as stated, fails: the length of the group stack need not be the nesting level
  of the row. A first row indented by 32px has level 2 while the stack is empty.
\<close>

theorem stack_length_counterexample:
  "map level (st_segments (flatten_rows [text_row ''MSH'' (Some ''padding-left: 32px'')] flatten_init)) = [2] \<and>
   lists (st_heap (flatten_rows [text_row ''MSH'' (Some ''padding-left: 32px'')] flatten_init))
         (st_group_stack (flatten_rows [text_row ''MSH'' (Some ''padding-left: 32px'')] flatten_init)) = []"
  by (simp add: flat_eval)

text \<open>
  Claim C2, as amended. For every row that emits a record, from any state the loop
  reaches, the record's \<open>group_path\<close> is the group stack as it stood before the row, cut
  to at most the row's level: it has \<open>min level (len stack)\<close> entries, so exactly \<open>level\<close>
  entries whenever the level does not exceed the stack length, and none at level 0.
  The stack itself is cut to the level only when the row is a group header, which is
  then pushed; any other row leaves the stack as it was.
\<close>

theorem group_path_cut_to_level:
  assumes "st = flatten_rows rows flatten_init"
    and "st_segments (flatten_row row st) = st_segments st @ [r]"
  shows "path_of (flatten_row row st) r = take (level r) (lists (st_heap st) (st_group_stack st)) \<and>
         length (path_of (flatten_row row st) r) = min (level r) (length (lists (st_heap st) (st_group_stack st))) \<and>
         lists (st_heap (flatten_row row st)) (st_group_stack (flatten_row row st)) =
           (if is_group r
            then take (level r) (lists (st_heap st) (st_group_stack st)) @ [segment_code r]
            else lists (st_heap st) (st_group_stack st))"
proof -
  have inv: "flat_inv st"
    using assms(1) by (simp add: reachable_inv)
  have p: "path_of (flatten_row row st) r = take (level r) (lists (st_heap st) (st_group_stack st))"
    using inv assms(2) by (rule flatten_row_path)
  have s: "lists (st_heap (flatten_row row st)) (st_group_stack (flatten_row row st)) =
           (if is_group r
            then take (level r) (lists (st_heap st) (st_group_stack st)) @ [segment_code r]
            else lists (st_heap st) (st_group_stack st))"
    using inv assms(2) by (rule flatten_row_stack)
  from p s show ?thesis by (simp add: min.commute)
qed

theorem group_path_cut_to_level_witness:
  "st_segments (flatten_row (text_row ''chevron_right\<newline>PATIENT'' None) (flatten_rows [] flatten_init)) =
     st_segments (flatten_rows [] flatten_init) @
       [\<lparr>segment_code = ''PATIENT'', segment_desc = ''PATIENT group'', optionality = ''R'',
         repeatability = ''inf'', is_group = True, group_path = 1, level = 0, order_index = 0\<rparr>] \<and>
   path_of (flatten_row (text_row ''chevron_right\<newline>PATIENT'' None) (flatten_rows [] flatten_init))
     \<lparr>segment_code = ''PATIENT'', segment_desc = ''PATIENT group'', optionality = ''R'',
      repeatability = ''inf'', is_group = True, group_path = 1, level = 0, order_index = 0\<rparr> = [] \<and>
   lists (st_heap (flatten_row (text_row ''chevron_right\<newline>PATIENT'' None) (flatten_rows [] flatten_init)))
         (st_group_stack (flatten_row (text_row ''chevron_right\<newline>PATIENT'' None) (flatten_rows [] flatten_init))) =
     [''PATIENT'']"
proof -
  have e: "st_segments (flatten_row (text_row ''chevron_right\<newline>PATIENT'' None) (flatten_rows [] flatten_init)) =
     st_segments (flatten_rows [] flatten_init) @
       [\<lparr>segment_code = ''PATIENT'', segment_desc = ''PATIENT group'', optionality = ''R'',
         repeatability = ''inf'', is_group = True, group_path = 1, level = 0, order_index = 0\<rparr>]"
    by (simp add: flat_eval)
  show ?thesis
    using e group_path_cut_to_level [OF refl e] by simp
qed

text \<open>
  Claim C4. The \<open>order_index\<close> fields of the records that one pass over a row list emits
  are exactly \<open>0..k-1\<close>, \<open>k\<close> the number of emitted records; the records of a longer row
  list start with the records of each of its initial parts, in order, and no row emits
  more than one record, so a skipped row consumes no index. The same numbering holds for
  whatever \<open>expand_groups\<close> returns from its second pass, the text fallback included.
\<close>

theorem order_index_sequence:
  "map order_index (st_segments (flatten_rows rows flatten_init)) =
     [0..<length (st_segments (flatten_rows rows flatten_init))] \<and>
   prefix (st_segments (flatten_rows rows flatten_init))
          (st_segments (flatten_rows (rows @ later) flatten_init)) \<and>
   length (st_segments (flatten_rows rows flatten_init)) \<le> length rows \<and>
   map order_index (snd (second_pass table)) = [0..<length (snd (second_pass table))]"
proof -
  have a: "prefix (st_segments (flatten_rows rows flatten_init))
          (st_segments (flatten_rows (rows @ later) flatten_init))"
    by (simp add: flatten_rows_append flatten_rows_prefix)
  have b: "length (st_segments (flatten_rows rows flatten_init)) \<le> length rows"
    using flatten_rows_count [of rows flatten_init]
    by (simp add: flatten_init_def new_list_def)
  have c: "map order_index (snd (second_pass table)) = [0..<length (snd (second_pass table))]"
    by (auto simp: second_pass_def Let_def flatten_rows_order_init parse_table_text_fallback_order
             split: access.splits)
  from flatten_rows_order_init a b c show ?thesis by simp
qed

text \<open>
  Claim C5. When a row emits a record that is a group header, the record's path is a
  prefix of the stack before the row and the stack after the row is that path followed by
  the header's code: the code is pushed after the record was made. Every record emitted
  so far is still there after any further rows, its path holds the same list, and its
  path is never the list object that serves as the group stack.
\<close>

theorem group_path_snapshot:
  assumes "st = flatten_rows rows flatten_init"
  shows "(st_segments (flatten_row row st) = st_segments st @ [r] \<and> is_group r \<longrightarrow>
            prefix (path_of (flatten_row row st) r) (lists (st_heap st) (st_group_stack st)) \<and>
            lists (st_heap (flatten_row row st)) (st_group_stack (flatten_row row st)) =
              path_of (flatten_row row st) r @ [segment_code r]) \<and>
         (e \<in> set (st_segments st) \<longrightarrow>
            e \<in> set (st_segments (flatten_rows later st)) \<and>
            path_of (flatten_rows later st) e = path_of st e \<and>
            group_path e \<noteq> st_group_stack (flatten_rows later st))"
proof -
  have inv: "flat_inv st"
    using assms by (simp add: reachable_inv)
  have header: "prefix (path_of (flatten_row row st) r) (lists (st_heap st) (st_group_stack st)) \<and>
        lists (st_heap (flatten_row row st)) (st_group_stack (flatten_row row st)) =
        path_of (flatten_row row st) r @ [segment_code r]"
    if "st_segments (flatten_row row st) = st_segments st @ [r]" and "is_group r"
    using flatten_row_path [OF inv that(1)] flatten_row_stack [OF inv that(1)] that(2)
    by (simp add: take_is_prefix)
  have kept: "e \<in> set (st_segments (flatten_rows later st)) \<and>
        path_of (flatten_rows later st) e = path_of st e \<and>
        group_path e \<noteq> st_group_stack (flatten_rows later st)"
    if e: "e \<in> set (st_segments st)"
  proof -
    have 1: "e \<in> set (st_segments (flatten_rows later st))"
      using flatten_rows_prefix [of st later] e by (auto simp: prefix_def)
    have "flat_inv (flatten_rows later st)"
      using inv by (rule flatten_rows_inv)
    with 1 have 2: "group_path e \<noteq> st_group_stack (flatten_rows later st)"
      by (auto simp: flat_inv_def list_all_iff)
    from 1 2 flatten_rows_paths_kept [OF inv e] show ?thesis by simp
  qed
  from header kept show ?thesis by blast
qed

theorem group_path_snapshot_witness:
  "lists (st_heap (flatten_row (text_row ''chevron_right\<newline>PATIENT'' None) (flatten_rows [] flatten_init)))
     (st_group_stack (flatten_row (text_row ''chevron_right\<newline>PATIENT'' None) (flatten_rows [] flatten_init))) =
     [] @ [''PATIENT''] \<and>
   path_of (flatten_rows [text_row ''chevron_right\<newline>VISIT'' (Some ''padding-left: 16px'')]
             (flatten_rows [text_row ''chevron_right\<newline>PATIENT'' None] flatten_init))
     \<lparr>segment_code = ''PATIENT'', segment_desc = ''PATIENT group'', optionality = ''R'',
      repeatability = ''inf'', is_group = True, group_path = 1, level = 0, order_index = 0\<rparr> = []"
proof -
  let ?r = "\<lparr>segment_code = ''PATIENT'', segment_desc = ''PATIENT group'', optionality = ''R'',
      repeatability = ''inf'', is_group = True, group_path = 1, level = 0, order_index = 0\<rparr>"
  let ?row = "text_row ''chevron_right\<newline>PATIENT'' None"
  have e: "st_segments (flatten_row ?row (flatten_rows [] flatten_init)) =
             st_segments (flatten_rows [] flatten_init) @ [?r]"
    by (simp add: flat_eval)
  have g: "is_group ?r" by simp
  have p: "path_of (flatten_row ?row (flatten_rows [] flatten_init)) ?r = []"
    by (simp add: flat_eval)
  have m: "?r \<in> set (st_segments (flatten_rows [?row] flatten_init))"
    by (simp add: flat_eval)
  have q: "path_of (flatten_rows [?row] flatten_init) ?r = []"
    by (simp add: flat_eval)
  show ?thesis
    using group_path_snapshot [OF refl, of ?row "[]" ?r]
          group_path_snapshot [OF refl, of _ "[?row]" _ ?r
             "[text_row ''chevron_right\<newline>VISIT'' (Some ''padding-left: 16px'')]"]
          e g p m q
    by simp
qed

text \<open>
  Claim C7. A row whose label (its text, or the text of its first cell when cells are
  found) is blank or is a lone affordance token emits nothing: the records, the running
  index and the group stack stay as they were, and the loop goes on. No exception leaves
  the row parsers, which return \<open>None\<close> for every exception they catch.
\<close>

theorem blank_row_skipped:
  assumes "st = flatten_rows rows flatten_init"
    and "(first_found (row_find_elements row) cell_selectors = Got [] \<and> row_text row = Got t) \<or>
         (\<exists>cells. first_found (row_find_elements row) cell_selectors = Got (Got t # cells))"
    and "strip t \<in> set ([] # ui_tokens)"
  shows "st_segments (flatten_row row st) = st_segments st \<and>
         st_order_index (flatten_row row st) = st_order_index st \<and>
         st_group_stack (flatten_row row st) = st_group_stack st \<and>
         lists (st_heap (flatten_row row st)) (st_group_stack st) = lists (st_heap st) (st_group_stack st)"
proof -
  have "flat_inv st"
    using assms(1) by (simp add: reachable_inv)
  then have gs: "st_group_stack st < fresh (st_heap st)"
    by (simp add: flat_inv_def)
  have "snd (extract_segment_from_row (st_heap st) row (st_order_index st) (st_group_stack st)) = None"
    using assms(2,3) by (rule extract_blank)
  from flatten_row_skip [OF this gs] show ?thesis .
qed

theorem blank_row_skipped_witness:
  "st_segments (flatten_row (text_row ''chevron_right'' None) (flatten_rows [] flatten_init)) =
     st_segments (flatten_rows [] flatten_init) \<and>
   st_order_index (flatten_row (text_row ''chevron_right'' None) (flatten_rows [] flatten_init)) =
     st_order_index (flatten_rows [] flatten_init) \<and>
   st_segments (flatten_row (cell_row [''  '', ''R'']) (flatten_rows [] flatten_init)) =
     st_segments (flatten_rows [] flatten_init)"
proof -
  have a: "(first_found (row_find_elements (text_row ''chevron_right'' None)) cell_selectors = Got [] \<and>
            row_text (text_row ''chevron_right'' None) = Got ''chevron_right'') \<or>
           (\<exists>cells. first_found (row_find_elements (text_row ''chevron_right'' None)) cell_selectors =
                      Got (Got ''chevron_right'' # cells))"
    by (simp add: text_row_def cell_selectors_def)
  have b: "strip ''chevron_right'' \<in> set ([] # ui_tokens)"
    by (simp add: strip_def isspace_def ord_def ui_tokens_def)
  have c: "(first_found (row_find_elements (cell_row [''  '', ''R''])) cell_selectors = Got [] \<and>
            row_text (cell_row [''  '', ''R'']) = Got ''  '') \<or>
           (\<exists>cells. first_found (row_find_elements (cell_row [''  '', ''R''])) cell_selectors =
                      Got (Got ''  '' # cells))"
    by (simp add: cell_row_def cell_selectors_def)
  have d: "strip ''  '' \<in> set ([] # ui_tokens)"
    by (simp add: strip_def isspace_def ord_def ui_tokens_def)
  show ?thesis
    using blank_row_skipped [OF refl a b] blank_row_skipped [OF refl c d] by simp
qed

text \<open>
  Claim C10, as stated, fails: the affordance branch of the text parser emits the first
  line that is neither empty nor a token, of any length. The row text
  \<open>chevron_right\<close>, newline, \<open>A\<close> gives a record whose code has length 1.
\<close>

theorem short_group_code_counterexample:
  "map segment_code (st_segments (flatten_rows [text_row ''chevron_right\<newline>A'' None] flatten_init)) = [''A'']"
  by (simp add: flat_eval)

text \<open>
  Claim C10, as amended. Every record that \<open>_extract_segment_from_row\<close> returns, from
  cells or from text, has a code that is not empty and is none of the affordance tokens;
  the code has at least 2 characters unless the record comes from the affordance branch
  of the text parser (no cells, and \<open>chevron_right\<close> or \<open>expand_more\<close> in the text).
\<close>

theorem segment_code_valid:
  assumes "extract_segment_from_row h row order_idx group_stack = (h', Some r)"
  shows "segment_code r \<noteq> [] \<and> segment_code r \<notin> set ui_tokens \<and>
         (2 \<le> length (segment_code r) \<or>
          (first_found (row_find_elements row) cell_selectors = Got [] \<and>
           (\<exists>t. row_text row = Got t \<and>
               (contains ''chevron_right'' (strip t) \<or> contains ''expand_more'' (strip t)))))"
  using assms by (rule extract_code)

theorem segment_code_valid_witness:
  "snd (extract_segment_from_row (st_heap flatten_init) (cell_row [''MSH - Message header'', ''R'', ''-''])
          0 (st_group_stack flatten_init)) =
     Some \<lparr>segment_code = ''MSH'', segment_desc = ''Message header'', optionality = ''R'',
           repeatability = ''-'', is_group = False, group_path = 1, level = 0, order_index = 0\<rparr> \<and>
   2 \<le> length ''MSH'' \<and> ''MSH'' \<notin> set ui_tokens"
proof -
  let ?x = "extract_segment_from_row (st_heap flatten_init)
              (cell_row [''MSH - Message header'', ''R'', ''-'']) 0 (st_group_stack flatten_init)"
  let ?r = "\<lparr>segment_code = ''MSH'', segment_desc = ''Message header'', optionality = ''R'',
           repeatability = ''-'', is_group = False, group_path = 1, level = 0, order_index = 0\<rparr>"
  have s: "snd ?x = Some ?r"
    by (simp add: flat_eval)
  then have "?x = (fst ?x, Some ?r)"
    by (metis prod.collapse)
  from segment_code_valid [OF this] s show ?thesis
    by (simp add: ui_tokens_def)
qed

section \<open>The scan of the virtual list\<close>

lemma scroll_iteration_fields:
  assumes "scroll_iteration p st = Inr st1"
  shows "scroll_position st1 = scroll_position st + client_height p div 2 \<and>
         iterations st1 = iterations st + 1 \<and>
         all_urls st \<subseteq> all_urls st1 \<and>
         (finite (all_urls st) \<longrightarrow> finite (all_urls st1))"
  using assms
  by (auto simp: scroll_iteration_def Let_def valid_urls_def split: access.splits)

lemma card_union_same:
  assumes "finite A" and "finite B"
  shows "card (A \<union> B) = card A \<longleftrightarrow> A \<union> B = A"
proof
  assume c: "card (A \<union> B) = card A"
  have f: "finite (A \<union> B)" using assms by simp
  have "A \<subseteq> A \<union> B" by blast
  from card_subset_eq [OF f this] c show "A \<union> B = A" by simp
next
  assume "A \<union> B = A"
  then show "card (A \<union> B) = card A" by simp
qed

lemma scroll_iteration_counter:
  assumes it: "scroll_iteration p st = Inr st1" and fin: "finite (all_urls st)"
  shows "no_new_urls_count st1 =
           (if all_urls st1 = all_urls st then no_new_urls_count st + 1 else 0)"
proof (cases "links_at p (iterations st) (scroll_position st)")
  case (Raised e)
  with it show ?thesis by (simp add: scroll_iteration_def)
next
  case (Got hrefs)
  have fv: "finite (valid_urls hrefs)" by (simp add: valid_urls_def)
  from it Got have s: "st1 =
      \<lparr>all_urls = all_urls st \<union> valid_urls hrefs,
       scroll_position = scroll_position st + client_height p div 2,
       no_new_urls_count =
         (if card (all_urls st \<union> valid_urls hrefs) = card (all_urls st)
          then no_new_urls_count st + 1 else 0),
       iterations = iterations st + 1\<rparr>"
    by (simp add: scroll_iteration_def Let_def)
  have u: "all_urls st1 = all_urls st \<union> valid_urls hrefs"
    by (subst s) simp
  have n: "no_new_urls_count st1 =
      (if card (all_urls st \<union> valid_urls hrefs) = card (all_urls st)
       then no_new_urls_count st + 1 else 0)"
    by (subst s) simp
  from n u card_union_same [OF fin fv] show ?thesis by simp
qed

lemma scroll_loop_exit:
  assumes "\<not> (scroll_position st \<le> scroll_height p - client_height p \<and> no_new_urls_count st < 5)"
  shows "scroll_loop p st = Some (Inr st)"
  using assms by (subst scroll_loop.simps) auto

lemma div_one_step:
  fixes a s :: int
  assumes "0 < s" and "s \<le> a"
  shows "nat ((a - s) div s) + 1 = nat (a div s)"
proof -
  have "a div s = (a - s + s) div s" by simp
  also have "\<dots> = (a - s) div s + 1"
    using assms(1) by (subst div_add_self2) auto
  finally have d: "a div s = (a - s) div s + 1" .
  have "0 \<le> (a - s) div s"
    using assms by (simp add: pos_imp_zdiv_nonneg_iff)
  with d show ?thesis by simp
qed

lemma scans_left_step:
  assumes step: "0 < client_height p div 2"
    and it: "scroll_iteration p st = Inr st1"
    and le: "scroll_position st \<le> scroll_height p - client_height p"
  shows "Suc (scans_left p st1) \<le> scans_left p st"
proof -
  let ?s = "client_height p div 2"
  let ?a = "scroll_height p - client_height p - scroll_position st"
  have pos: "scroll_position st1 = scroll_position st + ?s"
    using scroll_iteration_fields [OF it] by simp
  have now: "scans_left p st = nat (?a div ?s) + 1"
    using le by (simp add: scans_left_def)
  show ?thesis
  proof (cases "scroll_position st1 \<le> scroll_height p - client_height p")
    case False
    then have "scans_left p st1 = 0" by (simp add: scans_left_def)
    with now show ?thesis by simp
  next
    case True
    with pos have ge: "?s \<le> ?a" by simp
    have eq: "scroll_height p - client_height p - scroll_position st1 = ?a - ?s"
      using pos by simp
    from True have "scans_left p st1 = nat ((scroll_height p - client_height p - scroll_position st1) div ?s) + 1"
      by (simp add: scans_left_def)
    also have "\<dots> = nat ((?a - ?s) div ?s) + 1"
      by (simp only: eq)
    also have "\<dots> = nat (?a div ?s)"
      using step ge by (rule div_one_step)
    finally show ?thesis using now by simp
  qed
qed

lemma scroll_loop_terminates:
  assumes step: "0 < client_height p div 2"
  shows "\<exists>r. scroll_loop p st = Some r \<and>
             (\<forall>st'. r = Inr st' \<longrightarrow> iterations st' \<le> iterations st + scans_left p st)"
proof (induction "scans_left p st" arbitrary: st rule: less_induct)
  case less
  show ?case
  proof (cases "scroll_position st \<le> scroll_height p - client_height p \<and> no_new_urls_count st < 5")
    case False
    then have "scroll_loop p st = Some (Inr st)" by (rule scroll_loop_exit)
    then show ?thesis by simp
  next
    case True
    show ?thesis
    proof (cases "scroll_iteration p st")
      case (Inl e)
      with True have "scroll_loop p st = Some (Inl e)"
        by (subst scroll_loop.simps) simp
      then show ?thesis by simp
    next
      case (Inr st1)
      with True have u: "scroll_loop p st = scroll_loop p st1"
        by (subst scroll_loop.simps) simp
      from True have le: "scroll_position st \<le> scroll_height p - client_height p" by simp
      from scans_left_step [OF step Inr le] have d: "Suc (scans_left p st1) \<le> scans_left p st" .
      then have "scans_left p st1 < scans_left p st" by simp
      from less [OF this] obtain r where
        r: "scroll_loop p st1 = Some r"
           "\<forall>st'. r = Inr st' \<longrightarrow> iterations st' \<le> iterations st1 + scans_left p st1"
        by blast
      have i: "iterations st1 = iterations st + 1"
        using scroll_iteration_fields [OF Inr] by simp
      have "\<forall>st'. r = Inr st' \<longrightarrow> iterations st' \<le> iterations st + scans_left p st"
      proof (intro allI impI)
        fix st' assume "r = Inr st'"
        with r(2) have "iterations st' \<le> iterations st1 + scans_left p st1" by blast
        with i d show "iterations st' \<le> iterations st + scans_left p st" by linarith
      qed
      with r(1) u show ?thesis by simp
    qed
  qed
qed

lemma scan_steps_fields:
  "scan_steps n p st = Inr st' \<Longrightarrow>
     iterations st' = iterations st + n \<and>
     scroll_position st' = scroll_position st + int n * (client_height p div 2) \<and>
     no_new_urls_count st' \<le> no_new_urls_count st + n"
proof (induction n arbitrary: st)
  case 0
  then show ?case by simp
next
  case (Suc n)
  from Suc.prems obtain st1 where
    i: "scroll_iteration p st = Inr st1" and r: "scan_steps n p st1 = Inr st'"
    by (auto split: sum.splits)
  from i have c: "no_new_urls_count st1 \<le> no_new_urls_count st + 1"
    by (auto simp: scroll_iteration_def Let_def split: access.splits if_splits)
  from scroll_iteration_fields [OF i] Suc.IH [OF r] c show ?case
    by (simp add: algebra_simps)
qed

lemma scan_steps_last:
  "scan_steps (Suc n) p st = (case scan_steps n p st of
                                Inl e \<Rightarrow> Inl e
                              | Inr sn \<Rightarrow> scroll_iteration p sn)"
proof (induction n arbitrary: st)
  case 0
  show ?case by (simp split: sum.splits)
next
  case (Suc n)
  show ?case
  proof (cases "scroll_iteration p st")
    case (Inl e)
    then show ?thesis by simp
  next
    case (Inr st1)
    with Suc [of st1] show ?thesis by simp
  qed
qed

lemma scroll_loop_continue:
  assumes "scroll_position st \<le> scroll_height p - client_height p \<and> no_new_urls_count st < 5"
    and "scroll_iteration p st = Inr st1"
  shows "scroll_loop p st = scroll_loop p st1"
  using assms by (subst scroll_loop.simps) simp

lemma scroll_loop_raise:
  assumes "scroll_position st \<le> scroll_height p - client_height p \<and> no_new_urls_count st < 5"
    and "scroll_iteration p st = Inl e"
  shows "scroll_loop p st = Some (Inl e)"
  using assms by (subst scroll_loop.simps) simp

lemma scroll_loop_as_steps:
  assumes step: "0 < client_height p div 2"
  shows "\<exists>n. n \<le> scans_left p st \<and> scroll_loop p st = Some (scan_steps n p st) \<and>
             (\<forall>k<n. \<exists>sk. scan_steps k p st = Inr sk \<and>
                       scroll_position sk \<le> scroll_height p - client_height p \<and>
                       no_new_urls_count sk < 5) \<and>
             (\<forall>st'. scan_steps n p st = Inr st' \<longrightarrow>
                    \<not> (scroll_position st' \<le> scroll_height p - client_height p \<and>
                       no_new_urls_count st' < 5))"
proof (induction "scans_left p st" arbitrary: st rule: less_induct)
  case less
  let ?cond = "\<lambda>s. scroll_position s \<le> scroll_height p - client_height p \<and> no_new_urls_count s < 5"
  show ?case
  proof (cases "?cond st")
    case False
    then have "scroll_loop p st = Some (Inr st)" by (rule scroll_loop_exit)
    with False show ?thesis by (intro exI [of _ 0]) simp
  next
    case True
    then have pos: "0 < scans_left p st" by (simp add: scans_left_def)
    show ?thesis
    proof (cases "scroll_iteration p st")
      case (Inl e)
      with True have "scroll_loop p st = Some (Inl e)" by (simp add: scroll_loop_raise)
      with Inl True pos show ?thesis by (intro exI [of _ 1]) simp
    next
      case (Inr st1)
      from True have le: "scroll_position st \<le> scroll_height p - client_height p" by simp
      from scans_left_step [OF step Inr le] have d: "Suc (scans_left p st1) \<le> scans_left p st" .
      then have "scans_left p st1 < scans_left p st" by simp
      from less [OF this] obtain n where
        n: "n \<le> scans_left p st1" "scroll_loop p st1 = Some (scan_steps n p st1)"
           "\<forall>k<n. \<exists>sk. scan_steps k p st1 = Inr sk \<and> ?cond sk"
           "\<forall>st'. scan_steps n p st1 = Inr st' \<longrightarrow> \<not> ?cond st'"
        by blast
      have a: "Suc n \<le> scans_left p st" using n(1) d by simp
      have b: "scroll_loop p st = Some (scan_steps (Suc n) p st)"
        using True Inr n(2) by (simp add: scroll_loop_continue)
      have c: "\<forall>k<Suc n. \<exists>sk. scan_steps k p st = Inr sk \<and> ?cond sk"
      proof (intro allI impI)
        fix k assume k: "k < Suc n"
        show "\<exists>sk. scan_steps k p st = Inr sk \<and> ?cond sk"
        proof (cases k)
          case 0
          with True show ?thesis by simp
        next
          case (Suc j)
          with k have "j < n" by simp
          with n(3) Suc Inr show ?thesis by simp
        qed
      qed
      have e: "\<forall>st'. scan_steps (Suc n) p st = Inr st' \<longrightarrow> \<not> ?cond st'"
        using n(4) Inr by simp
      show ?thesis
        by (rule exI [of _ "Suc n"]) (intro conjI a b c e)
    qed
  qed
qed

lemma scroll_loop_from_init:
  assumes h: "client_height p = 500 \<and> scroll_height p = 5000"
  shows "\<exists>r. scroll_loop p scroll_init = Some r \<and>
           (\<forall>st'. r = Inr st' \<longrightarrow>
              5 \<le> iterations st' \<and> iterations st' \<le> 19 \<and>
              scroll_position st' = 250 * int (iterations st') \<and>
              (no_new_urls_count st' = 5 \<or> iterations st' = 19))"
proof -
  from h have step: "0 < client_height p div 2" by simp
  from h have sl: "scans_left p scroll_init = 19"
    by (simp add: scans_left_def scroll_init_def)
  from scroll_loop_as_steps [OF step, of scroll_init] sl obtain n where
    n: "n \<le> 19" "scroll_loop p scroll_init = Some (scan_steps n p scroll_init)"
       "\<forall>k<n. \<exists>sk. scan_steps k p scroll_init = Inr sk \<and>
                 scroll_position sk \<le> scroll_height p - client_height p \<and>
                 no_new_urls_count sk < 5"
       "\<forall>st'. scan_steps n p scroll_init = Inr st' \<longrightarrow>
              \<not> (scroll_position st' \<le> scroll_height p - client_height p \<and>
                 no_new_urls_count st' < 5)"
    by auto
  have "5 \<le> iterations st' \<and> iterations st' \<le> 19 \<and>
        scroll_position st' = 250 * int (iterations st') \<and>
        (no_new_urls_count st' = 5 \<or> iterations st' = 19)"
    if r: "scan_steps n p scroll_init = Inr st'" for st'
  proof -
    from scan_steps_fields [OF r] h have f:
      "iterations st' = n" "scroll_position st' = int n * 250" "no_new_urls_count st' \<le> n"
      by (simp_all add: scroll_init_def)
    from n(4) r have ex: "\<not> (scroll_position st' \<le> 4500 \<and> no_new_urls_count st' < 5)"
      using h by simp
    have upper: "no_new_urls_count st' \<le> 5"
    proof (cases n)
      case 0
      with f(3) show ?thesis by simp
    next
      case (Suc m)
      then have "m < n" by simp
      with n(3) obtain sm where sm: "scan_steps m p scroll_init = Inr sm" "no_new_urls_count sm < 5"
        by blast
      from r Suc sm(1) have "scroll_iteration p sm = Inr st'"
        by (simp add: scan_steps_last del: scan_steps.simps)
      then have "no_new_urls_count st' \<le> no_new_urls_count sm + 1"
        by (auto simp: scroll_iteration_def Let_def split: access.splits if_splits)
      with sm(2) show ?thesis by simp
    qed
    show ?thesis
    proof (cases "no_new_urls_count st' < 5")
      case False
      with upper f n(1) show ?thesis by simp
    next
      case True
      with ex have "4500 < scroll_position st'" by simp
      with f(2) have "19 \<le> n" by simp
      with n(1) f True show ?thesis by simp
    qed
  qed
  with n(2) show ?thesis by blast
qed

lemma valid_one: "valid_urls [Some (BASE_URL @ ''/ADT_A01'')] = {BASE_URL @ ''/ADT_A01''}"
  by (simp add: valid_urls_def valid_url_def rstrip_slash_def BASE_URL_def startswith_def)

lemma valid_none: "valid_urls [] = {}"
  by (simp add: valid_urls_def)

lemma late_run:
  "scroll_loop late_link_page scroll_init =
     Some (Inr \<lparr>all_urls = {BASE_URL @ ''/ADT_A01''}, scroll_position = 2000,
                no_new_urls_count = 5, iterations = 8\<rparr>)"
  by (simp add: scroll_loop.simps scroll_iteration_def late_link_page_def index_page_with_def
                scroll_init_def valid_one valid_none Let_def)

lemma windowed_run:
  "map_option (map_sum id (\<lambda>st. (card (all_urls st), scroll_position st, no_new_urls_count st,
                                    iterations st)))
     (scroll_loop windowed_page scroll_init) = Some (Inr (19, 4750, 0, 19))"
  by (simp add: scroll_loop.simps scroll_iteration_def windowed_page_def index_page_with_def
                scroll_init_def Let_def valid_urls_def valid_url_def rstrip_slash_def
                BASE_URL_def startswith_def event_names_def)

section \<open>Discovering the URLs\<close>

lemma retrying_all_timeouts:
  assumes "\<And>k. body k = Some (Inl TimeoutException)"
  shows "retry body = Some (Inl RetryError, [2, 2])"
  using assms by (simp add: retry_def numeral_3_eq_3 wait_exponential_def)

lemma scroll_loop_nothing_valid:
  assumes nv: "no_valid_links p"
  shows "all_urls st = {} \<Longrightarrow> \<exists>st'. scroll_loop p st = Some (Inr st') \<and> all_urls st' = {}"
proof (induction "5 - no_new_urls_count st" arbitrary: st rule: less_induct)
  case less
  show ?case
  proof (cases "scroll_position st \<le> scroll_height p - client_height p \<and> no_new_urls_count st < 5")
    case False
    then have "scroll_loop p st = Some (Inr st)" by (rule scroll_loop_exit)
    with less.prems show ?thesis by simp
  next
    case True
    from nv obtain hrefs where
      h: "links_at p (iterations st) (scroll_position st) = Got hrefs" "valid_urls hrefs = {}"
      unfolding no_valid_links_def by blast
    define st1 where "st1 =
      \<lparr>all_urls = {}, scroll_position = scroll_position st + client_height p div 2,
       no_new_urls_count = no_new_urls_count st + 1, iterations = iterations st + 1\<rparr>"
    have it: "scroll_iteration p st = Inr st1"
      using h less.prems by (simp add: scroll_iteration_def Let_def st1_def)
    with True have u: "scroll_loop p st = scroll_loop p st1"
      by (subst scroll_loop.simps) simp
    have "5 - no_new_urls_count st1 < 5 - no_new_urls_count st"
      using True by (auto simp: st1_def)
    moreover have "all_urls st1 = {}" by (simp add: st1_def)
    ultimately have "\<exists>st'. scroll_loop p st1 = Some (Inr st') \<and> all_urls st' = {}"
      by (rule less.hyps)
    with u show ?thesis by simp
  qed
qed

lemma collect_attempt_nothing_valid:
  assumes load: "page_load p = Got ()"
    and wait: "list_ex (\<lambda>n. 0 < n) (link_polls p)"
    and nv: "no_valid_links p"
  shows "collect_event_urls_attempt p = Some (Inr [])"
proof (cases "viewport_found p")
  case False
  from nv obtain hrefs where
    "links_after p (fallback_scroll p 0 0) = Got hrefs" "valid_urls hrefs = {}"
    unfolding no_valid_links_def by blast
  with load wait False show ?thesis
    by (simp add: collect_event_urls_attempt_def fallback_collect_urls_def)
next
  case True
  have "all_urls scroll_init = {}" by (simp add: scroll_init_def)
  from scroll_loop_nothing_valid [OF nv this] obtain st' where
    s: "scroll_loop p scroll_init = Some (Inr st')" "all_urls st' = {}"
    by blast
  from nv obtain hrefs where b: "links_at_bottom p = Got hrefs" "valid_urls hrefs = {}"
    unfolding no_valid_links_def by blast
  from load wait True s b show ?thesis
    by (simp add: collect_event_urls_attempt_def)
qed

lemma collect_attempt_no_links:
  assumes "page_load p = Got ()" and "\<not> list_ex (\<lambda>n. 0 < n) (link_polls p)"
  shows "collect_event_urls_attempt p = Some (Inl TimeoutException)"
  using assms by (simp add: collect_event_urls_attempt_def)

lemma valid_urls_base: "valid_urls [Some BASE_URL, None, Some []] = {}"
  by (simp add: valid_urls_def valid_url_def rstrip_slash_def BASE_URL_def)

text \<open>
  Claim C3. The counter \<open>no_new_urls_count\<close> after an iteration is one more than before
  when the iteration left the set of URLs as it was, and zero otherwise. While the scroll
  position has not passed \<open>scrollHeight - clientHeight\<close> and the counter is below 5, the loop
  executes its body once more and goes on from the state the body yields (or ends with
  the exception the body raises); at a counter of 5 it stops wherever the scroll position
  is, and past the end of the range it stops whatever the counter is. For a positive step
  the loop returns: its result is that of some \<open>n\<close> executions of the body in a row, \<open>n\<close> no
  more than the scroll range allows, every state before the last satisfies the loop
  condition and the last one does not. For a viewport of height 500 over a content of
  height 5000 the loop, started as the source starts it, returns; when it returns a
  state, it has made at least 5 and at most \<open>(5000 - 500) div 250 + 1 = 19\<close> iterations,
  250 pixels each, and it ended at a counter of exactly 5 or after the 19th iteration.
\<close>

theorem stagnation_counter_and_scan_bound:
  "(scroll_iteration p st = Inr st1 \<and> finite (all_urls st) \<longrightarrow>
      no_new_urls_count st1 = (if all_urls st1 = all_urls st then no_new_urls_count st + 1 else 0)) \<and>
   (scroll_position st \<le> scroll_height p - client_height p \<and> no_new_urls_count st < 5 \<longrightarrow>
      scroll_loop p st = (case scroll_iteration p st of
                            Inl e \<Rightarrow> Some (Inl e)
                          | Inr next_st \<Rightarrow> scroll_loop p next_st)) \<and>
   (5 \<le> no_new_urls_count st \<longrightarrow> scroll_loop p st = Some (Inr st)) \<and>
   (scroll_height p - client_height p < scroll_position st \<longrightarrow> scroll_loop p st = Some (Inr st)) \<and>
   (0 < client_height p div 2 \<longrightarrow>
      (\<exists>n. n \<le> scans_left p st \<and> scroll_loop p st = Some (scan_steps n p st) \<and>
           (\<forall>k<n. \<exists>sk. scan_steps k p st = Inr sk \<and>
                     scroll_position sk \<le> scroll_height p - client_height p \<and>
                     no_new_urls_count sk < 5) \<and>
           (\<forall>st'. scan_steps n p st = Inr st' \<longrightarrow>
                  \<not> (scroll_position st' \<le> scroll_height p - client_height p \<and>
                     no_new_urls_count st' < 5)))) \<and>
   (client_height p = 500 \<and> scroll_height p = 5000 \<longrightarrow>
      (\<exists>r. scroll_loop p scroll_init = Some r \<and>
           (\<forall>st'. r = Inr st' \<longrightarrow>
              5 \<le> iterations st' \<and>
              iterations st' \<le> (5000 - 500) div 250 + 1 \<and> iterations st' \<le> 19 \<and>
              scroll_position st' = 250 * int (iterations st') \<and>
              (no_new_urls_count st' = 5 \<or> iterations st' = 19))))"
proof (intro conjI impI)
  assume "scroll_iteration p st = Inr st1 \<and> finite (all_urls st)"
  then show "no_new_urls_count st1 = (if all_urls st1 = all_urls st then no_new_urls_count st + 1 else 0)"
    using scroll_iteration_counter by blast
next
  assume "scroll_position st \<le> scroll_height p - client_height p \<and> no_new_urls_count st < 5"
  then show "scroll_loop p st = (case scroll_iteration p st of
                            Inl e \<Rightarrow> Some (Inl e)
                          | Inr next_st \<Rightarrow> scroll_loop p next_st)"
    by (subst scroll_loop.simps) simp
next
  assume "5 \<le> no_new_urls_count st"
  then have "\<not> (scroll_position st \<le> scroll_height p - client_height p \<and> no_new_urls_count st < 5)"
    by simp
  then show "scroll_loop p st = Some (Inr st)" by (rule scroll_loop_exit)
next
  assume "scroll_height p - client_height p < scroll_position st"
  then have "\<not> (scroll_position st \<le> scroll_height p - client_height p \<and> no_new_urls_count st < 5)"
    by simp
  then show "scroll_loop p st = Some (Inr st)" by (rule scroll_loop_exit)
next
  assume "0 < client_height p div 2"
  then show "\<exists>n. n \<le> scans_left p st \<and> scroll_loop p st = Some (scan_steps n p st) \<and>
           (\<forall>k<n. \<exists>sk. scan_steps k p st = Inr sk \<and>
                     scroll_position sk \<le> scroll_height p - client_height p \<and>
                     no_new_urls_count sk < 5) \<and>
           (\<forall>st'. scan_steps n p st = Inr st' \<longrightarrow>
                  \<not> (scroll_position st' \<le> scroll_height p - client_height p \<and>
                     no_new_urls_count st' < 5))"
    by (rule scroll_loop_as_steps)
next
  assume h: "client_height p = 500 \<and> scroll_height p = 5000"
  from scroll_loop_from_init [OF h] obtain r where
    r: "scroll_loop p scroll_init = Some r"
       "\<forall>st'. r = Inr st' \<longrightarrow>
              5 \<le> iterations st' \<and> iterations st' \<le> 19 \<and>
              scroll_position st' = 250 * int (iterations st') \<and>
              (no_new_urls_count st' = 5 \<or> iterations st' = 19)"
    by blast
  from r(2) have "\<forall>st'. r = Inr st' \<longrightarrow>
              5 \<le> iterations st' \<and>
              iterations st' \<le> (5000 - 500) div 250 + 1 \<and> iterations st' \<le> 19 \<and>
              scroll_position st' = 250 * int (iterations st') \<and>
              (no_new_urls_count st' = 5 \<or> iterations st' = 19)"
    by simp
  with r(1) show "\<exists>r. scroll_loop p scroll_init = Some r \<and>
           (\<forall>st'. r = Inr st' \<longrightarrow>
              5 \<le> iterations st' \<and>
              iterations st' \<le> (5000 - 500) div 250 + 1 \<and> iterations st' \<le> 19 \<and>
              scroll_position st' = 250 * int (iterations st') \<and>
              (no_new_urls_count st' = 5 \<or> iterations st' = 19))"
    by blast
qed

theorem stagnation_counter_and_scan_bound_witness:
  "scroll_loop late_link_page scroll_init =
     Some (Inr \<lparr>all_urls = {BASE_URL @ ''/ADT_A01''}, scroll_position = 2000,
                no_new_urls_count = 5, iterations = 8\<rparr>) \<and>
   map_option (map_sum id (\<lambda>st. (card (all_urls st), scroll_position st, no_new_urls_count st,
                                  iterations st)))
     (scroll_loop windowed_page scroll_init) = Some (Inr (19, 4750, 0, 19)) \<and>
   scroll_loop late_link_page scroll_init =
     scroll_loop late_link_page
       \<lparr>all_urls = {}, scroll_position = 250, no_new_urls_count = 1, iterations = 1\<rparr> \<and>
   no_new_urls_count
     \<lparr>all_urls = {BASE_URL @ ''/ADT_A01''}, scroll_position = 750, no_new_urls_count = 0, iterations = 3\<rparr> =
     (if all_urls \<lparr>all_urls = {BASE_URL @ ''/ADT_A01''}, scroll_position = 750,
                  no_new_urls_count = 0, iterations = 3\<rparr> =
         all_urls \<lparr>all_urls = {}, scroll_position = 500, no_new_urls_count = 2, iterations = 2\<rparr>
      then 2 + 1 else 0) \<and>
   scroll_loop late_link_page
     \<lparr>all_urls = {}, scroll_position = 1250, no_new_urls_count = 5, iterations = 5\<rparr> =
     Some (Inr \<lparr>all_urls = {}, scroll_position = 1250, no_new_urls_count = 5, iterations = 5\<rparr>) \<and>
   scroll_loop late_link_page
     \<lparr>all_urls = {}, scroll_position = 4750, no_new_urls_count = 0, iterations = 19\<rparr> =
     Some (Inr \<lparr>all_urls = {}, scroll_position = 4750, no_new_urls_count = 0, iterations = 19\<rparr>) \<and>
   (\<exists>n. n \<le> 19 \<and> scroll_loop late_link_page scroll_init = Some (scan_steps n late_link_page scroll_init)) \<and>
   (\<exists>r. scroll_loop late_link_page scroll_init = Some r \<and>
        (\<forall>st'. r = Inr st' \<longrightarrow> 5 \<le> iterations st' \<and> iterations st' \<le> 19))"
proof -
  let ?p = "late_link_page"
  let ?s1 = "\<lparr>all_urls = {}, scroll_position = 250, no_new_urls_count = 1, iterations = 1\<rparr>"
  let ?s2 = "\<lparr>all_urls = {}, scroll_position = 500, no_new_urls_count = 2, iterations = 2\<rparr>"
  let ?s3 = "\<lparr>all_urls = {BASE_URL @ ''/ADT_A01''}, scroll_position = 750,
              no_new_urls_count = 0, iterations = 3\<rparr>"
  let ?s5 = "\<lparr>all_urls = {}, scroll_position = 1250, no_new_urls_count = 5, iterations = 5\<rparr>"
  let ?s19 = "\<lparr>all_urls = {}, scroll_position = 4750, no_new_urls_count = 0, iterations = 19\<rparr>"
  have geo: "client_height ?p = 500 \<and> scroll_height ?p = 5000"
    by (simp add: late_link_page_def index_page_with_def)
  have i1: "scroll_iteration ?p scroll_init = Inr ?s1"
    by (simp add: scroll_iteration_def late_link_page_def index_page_with_def scroll_init_def
                  valid_none Let_def)
  have i3: "scroll_iteration ?p ?s2 = Inr ?s3 \<and> finite (all_urls ?s2)"
    by (simp add: scroll_iteration_def late_link_page_def index_page_with_def valid_one Let_def)
  have c0: "scroll_position scroll_init \<le> scroll_height ?p - client_height ?p \<and>
            no_new_urls_count scroll_init < 5"
    using geo by (simp add: scroll_init_def)
  have c5: "5 \<le> no_new_urls_count ?s5" by simp
  have c19: "scroll_height ?p - client_height ?p < scroll_position ?s19"
    using geo by simp
  have step: "0 < client_height ?p div 2" using geo by simp
  have sl: "scans_left ?p scroll_init = 19"
    using geo by (simp add: scans_left_def scroll_init_def)
  note t0 = stagnation_counter_and_scan_bound [of ?p scroll_init ?s1]
  note t2 = stagnation_counter_and_scan_bound [of ?p ?s2 ?s3]
  note t5 = stagnation_counter_and_scan_bound [of ?p ?s5 ?s1]
  note t19 = stagnation_counter_and_scan_bound [of ?p ?s19 ?s1]
  have a: "scroll_loop ?p scroll_init = scroll_loop ?p ?s1"
    using t0 c0 i1 by simp
  have b: "no_new_urls_count ?s3 = (if all_urls ?s3 = all_urls ?s2 then 2 + 1 else 0)"
    using t2 i3 by simp
  have c: "scroll_loop ?p ?s5 = Some (Inr ?s5)"
    using t5 c5 by blast
  have d: "scroll_loop ?p ?s19 = Some (Inr ?s19)"
    using t19 c19 by blast
  have e: "\<exists>n. n \<le> 19 \<and> scroll_loop ?p scroll_init = Some (scan_steps n ?p scroll_init)"
    using t0 step sl by auto
  have f: "\<exists>r. scroll_loop ?p scroll_init = Some r \<and>
        (\<forall>st'. r = Inr st' \<longrightarrow> 5 \<le> iterations st' \<and> iterations st' \<le> 19)"
    using t0 geo by blast
  from late_run windowed_run a b c d e f show ?thesis
    by (intro conjI)
qed

text \<open>
  Claim C1, as stated, fails: on a page where no element matches the link selector at
  any poll, the first wait of every attempt raises \<open>TimeoutException\<close>, and after three
  attempts \<open>collect_event_urls\<close> ends with \<open>RetryError\<close>, not with an empty list.
\<close>

theorem no_links_counterexample:
  "collect_event_urls no_link_pages = Some (Inl RetryError, [2, 2])"
proof -
  have "collect_event_urls_attempt (no_link_pages k) = Some (Inl TimeoutException)" for k
    by (rule collect_attempt_no_links) (simp_all add: no_link_pages_def index_page_with_def)
  then show ?thesis
    unfolding collect_event_urls_def by (rule retrying_all_timeouts)
qed

text \<open>
  Claim C1, as amended. When the page loads, some poll of the first wait finds a matching
  element, and every read of the links returns without any href that passes the URL
  filter, an attempt returns the empty list. When the page loads and no poll finds a
  matching element, the attempt raises \<open>TimeoutException\<close>; when that happens on every
  attempt, \<open>collect_event_urls\<close> raises \<open>RetryError\<close> after sleeping 2 and 2 seconds.
\<close>

theorem empty_result_when_no_valid_link:
  "(page_load p = Got () \<and> list_ex (\<lambda>n. 0 < n) (link_polls p) \<and> no_valid_links p \<longrightarrow>
      collect_event_urls_attempt p = Some (Inr [])) \<and>
   (page_load p = Got () \<and> \<not> list_ex (\<lambda>n. 0 < n) (link_polls p) \<longrightarrow>
      collect_event_urls_attempt p = Some (Inl TimeoutException)) \<and>
   ((\<forall>k. page_load (pages k) = Got () \<and> \<not> list_ex (\<lambda>n. 0 < n) (link_polls (pages k))) \<longrightarrow>
      collect_event_urls pages = Some (Inl RetryError, [2, 2]))"
proof (intro conjI impI)
  assume "page_load p = Got () \<and> list_ex (\<lambda>n. 0 < n) (link_polls p) \<and> no_valid_links p"
  then show "collect_event_urls_attempt p = Some (Inr [])"
    using collect_attempt_nothing_valid by blast
next
  assume "page_load p = Got () \<and> \<not> list_ex (\<lambda>n. 0 < n) (link_polls p)"
  then show "collect_event_urls_attempt p = Some (Inl TimeoutException)"
    using collect_attempt_no_links by blast
next
  assume a: "\<forall>k. page_load (pages k) = Got () \<and> \<not> list_ex (\<lambda>n. 0 < n) (link_polls (pages k))"
  have "collect_event_urls_attempt (pages k) = Some (Inl TimeoutException)" for k
    using a collect_attempt_no_links by blast
  then show "collect_event_urls pages = Some (Inl RetryError, [2, 2])"
    unfolding collect_event_urls_def by (rule retrying_all_timeouts)
qed

theorem empty_result_when_no_valid_link_witness:
  "collect_event_urls_attempt (index_page_with [0, 2] [Some BASE_URL, None, Some []]) = Some (Inr []) \<and>
   collect_event_urls_attempt (index_page_with [0, 0, 0] []) = Some (Inl TimeoutException) \<and>
   collect_event_urls no_link_pages = Some (Inl RetryError, [2, 2])"
proof -
  let ?p = "index_page_with [0, 2] [Some BASE_URL, None, Some []]"
  have a: "page_load ?p = Got () \<and> list_ex (\<lambda>n. 0 < n) (link_polls ?p) \<and> no_valid_links ?p"
    by (simp add: index_page_with_def no_valid_links_def valid_urls_base)
  let ?q = "index_page_with [0, 0, 0] []"
  have b: "page_load ?q = Got () \<and> \<not> list_ex (\<lambda>n. 0 < n) (link_polls ?q)"
    by (simp add: index_page_with_def)
  have c: "\<forall>k. page_load (no_link_pages k) = Got () \<and>
               \<not> list_ex (\<lambda>n. 0 < n) (link_polls (no_link_pages k))"
    by (simp add: no_link_pages_def index_page_with_def)
  show ?thesis
    using empty_result_when_no_valid_link [of ?p _] empty_result_when_no_valid_link [of ?q _]
          empty_result_when_no_valid_link [of _ no_link_pages] a b c
    by blast
qed

section \<open>Retrying and the run\<close>








section \<open>Expanding the groups\<close>

declare expand_loop.simps [simp del]

lemma activate_fields:
  "activate click s el st = (ok, st1) \<Longrightarrow>
     attempt st1 = attempt st \<and> rounds st1 = rounds st \<and>
     activations st1 = activations st @ [(s, el)] \<and>
     page st1 = snd (click s el (page st)) \<and>
     expanded_count st1 = expanded_count st \<and> any_expanded st1 = any_expanded st"
  by (auto simp: activate_def split: prod.splits)

lemma expand_button_counters:
  "attempt (expand_button click button st) = attempt st \<and>
   rounds (expand_button click button st) = rounds st"
  by (auto simp: expand_button_def Let_def split: access.splits prod.splits if_splits
           dest!: activate_fields)

lemma script_click_counters:
  "attempt (script_click click el st) = attempt st \<and>
   rounds (script_click click el st) = rounds st"
  by (auto simp: script_click_def Let_def split: prod.splits dest!: activate_fields)

lemma fold_counters:
  assumes "\<And>x s. attempt (f x s) = attempt s \<and> rounds (f x s) = rounds s"
  shows "attempt (foldl (\<lambda>s x. f x s) st xs) = attempt st \<and>
         rounds (foldl (\<lambda>s x. f x s) st xs) = rounds st"
  by (induction xs arbitrary: st) (simp_all add: assms)

lemma expand_round_counters:
  assumes "expand_round click st = Inr st1"
  shows "attempt st1 = attempt st \<and> rounds st1 = rounds st + 1"
  using assms
        fold_counters [of "expand_button click", OF expand_button_counters]
        fold_counters [of "script_click click", OF script_click_counters]
  by (auto simp: expand_round_def Let_def split: access.splits if_splits)

lemma expand_loop_rounds:
  assumes "expand_loop click st = Inr st'" and "rounds st = attempt st" and "attempt st \<le> max_attempts"
  shows "rounds st' \<le> max_attempts \<and> attempt st' \<le> max_attempts"
  using assms
proof (induction click st rule: expand_loop.induct)
  case (1 click st)
  show ?case
  proof (cases "attempt st < max_attempts")
    case False
    with "1.prems" show ?thesis by (simp add: expand_loop.simps [of click st])
  next
    case True
    show ?thesis
    proof (cases "expand_round click st")
      case (Inl e)
      with True "1.prems"(1) show ?thesis by (simp add: expand_loop.simps [of click st])
    next
      case (Inr st1)
      note c = expand_round_counters [OF Inr]
      show ?thesis
      proof (cases "any_expanded st1")
        case False
        with True Inr "1.prems"(1) have "st' = st1"
          by (simp add: expand_loop.simps [of click st])
        with c True "1.prems"(2) show ?thesis by simp
      next
        case e: True
        let ?next = "st1\<lparr>attempt := attempt st + 1\<rparr>"
        from True Inr e "1.prems"(1) have l: "expand_loop click ?next = Inr st'"
          by (simp add: expand_loop.simps [of click st])
        have "rounds ?next = attempt ?next" using c "1.prems"(2) by simp
        moreover have "attempt ?next \<le> max_attempts" using True by simp
        ultimately show ?thesis
          using "1.IH" [OF True Inr _ l] e by simp
      qed
    qed
  qed
qed

lemma first_found_answers:
  assumes "\<And>selector. \<exists>elements. f selector = Got elements"
  shows "\<exists>elements. first_found f selectors = Got elements"
proof (induction selectors)
  case Nil
  show ?case by simp
next
  case (Cons selector selectors)
  from assms [of selector] obtain elements where "f selector = Got elements" by blast
  with Cons show ?case by simp
qed

lemma activate_answers:
  assumes keep: "keeps_answering click"
    and "table_answers (page st)"
  shows "table_answers (page (snd (activate click s el st)))"
proof -
  from keep assms(2) have "table_answers (snd (click s el (page st)))"
    unfolding keeps_answering_def by blast
  then show ?thesis
    by (auto simp: activate_def split: prod.splits)
qed

lemma expand_button_answers:
  assumes keep: "keeps_answering click"
    and a: "table_answers (page st)"
  shows "table_answers (page (expand_button click button st))"
proof -
  let ?st1 = "snd (activate click DirectClick button st)"
  let ?st2 = "snd (activate click ScriptClick button ?st1)"
  let ?st3 = "snd (activate click ActionChainsClick button ?st2)"
  have 1: "table_answers (page ?st1)" using keep a by (rule activate_answers)
  have 2: "table_answers (page ?st2)" using keep 1 by (rule activate_answers)
  have 3: "table_answers (page ?st3)" using keep 2 by (rule activate_answers)
  from a 1 2 3 show ?thesis
    by (auto simp: expand_button_def Let_def split: access.splits prod.splits)
qed

lemma script_click_answers:
  assumes keep: "keeps_answering click"
    and a: "table_answers (page st)"
  shows "table_answers (page (script_click click el st))"
  using activate_answers [OF keep a, of ScriptClick el]
  by (auto simp: script_click_def Let_def split: prod.splits)

lemma fold_answers:
  assumes "\<And>x s. table_answers (page s) \<Longrightarrow> table_answers (page (f x s))"
    and "table_answers (page st)"
  shows "table_answers (page (foldl (\<lambda>s x. f x s) st xs))"
  using assms(2) by (induction xs arbitrary: st) (simp_all add: assms(1))

lemma answers_css: "table_answers d \<Longrightarrow> find_css d selector \<noteq> Raised e"
  by (metis access.distinct(1) table_answers_def)

lemma answers_xpath: "table_answers d \<Longrightarrow> find_xpath d path \<noteq> Raised e"
  by (metis access.distinct(1) table_answers_def)

lemma first_found_css: "table_answers d \<Longrightarrow> first_found (find_css d) selectors \<noteq> Raised e"
proof -
  assume "table_answers d"
  then have "\<And>selector. \<exists>elements. find_css d selector = Got elements"
    by (simp add: table_answers_def)
  from first_found_answers [of "find_css d", OF this] show ?thesis
    by (metis access.distinct(1))
qed

lemma expand_round_answers:
  assumes keep: "keeps_answering click"
    and a: "table_answers (page st)"
  shows "\<exists>st1. expand_round click st = Inr st1 \<and> table_answers (page st1)"
proof -
  let ?st0 = "st\<lparr>any_expanded := False, rounds := rounds st + 1\<rparr>"
  have a0: "table_answers (page ?st0)" using a by simp
  have b: "table_answers (page (foldl (\<lambda>s button. expand_button click button s) ?st0 xs))" for xs
    by (rule fold_answers [of "expand_button click"]) (simp_all add: expand_button_answers keep a)
  have c: "table_answers (page (foldl (\<lambda>s x. script_click click x s) s0 xs))"
    if "table_answers (page s0)" for s0 xs
    by (rule fold_answers [of "script_click click"]) (simp_all add: script_click_answers keep that)
  show ?thesis
  proof (cases "first_found (find_css (page st)) expandable_selectors")
    case (Raised e)
    with first_found_css [OF a] show ?thesis by blast
  next
    case found: (Got found)
    show ?thesis
    proof (cases "find_xpath (page st) chevron_xpath")
      case (Raised e)
      with answers_xpath [OF a] show ?thesis by blast
    next
      case chev: (Got chevron_rows)
      let ?st1 = "foldl (\<lambda>s button. expand_button click button s) ?st0
                    (found @ concat (map (chevron_row_controls (page st)) chevron_rows))"
      have a1: "table_answers (page ?st1)" by (rule b)
      have e1: "expand_round click st =
          (case find_css (page ?st1) ''.flex-segment'' of
             Raised e \<Rightarrow> Inl e
           | Got current_rows \<Rightarrow>
               (case find_xpath (page ?st1) chevron_xpath of
                  Raised e \<Rightarrow> Inl e
                | Got remaining_chevrons \<Rightarrow>
                    if \<not> any_expanded ?st1 \<and> remaining_chevrons \<noteq> [] then
                      (let st2 = foldl (\<lambda>s chevron_row. script_click click chevron_row s)
                                       ?st1 (take 3 remaining_chevrons)
                       in case find_xpath (page st2) clickable_xpath of
                            Raised e \<Rightarrow> Inl e
                          | Got all_clickables \<Rightarrow>
                              Inr (foldl (\<lambda>s clickable. script_click click clickable s)
                                         st2 (take 5 all_clickables)))
                    else Inr ?st1))"
        unfolding expand_round_def found chev by (simp only: access.case Let_def)
      show ?thesis
      proof (cases "find_css (page ?st1) ''.flex-segment''")
        case (Raised e)
        with answers_css [OF a1] show ?thesis by blast
      next
        case rows: (Got current_rows)
        show ?thesis
        proof (cases "find_xpath (page ?st1) chevron_xpath")
          case (Raised e)
          with answers_xpath [OF a1] show ?thesis by blast
        next
          case rem: (Got remaining_chevrons)
          show ?thesis
          proof (cases "\<not> any_expanded ?st1 \<and> remaining_chevrons \<noteq> []")
            case False
            have "expand_round click st = Inr ?st1"
              unfolding e1 rows rem using False by (simp only: access.case if_False simp_thms)
            with a1 show ?thesis by blast
          next
            case True
            let ?st2 = "foldl (\<lambda>s chevron_row. script_click click chevron_row s)
                          ?st1 (take 3 remaining_chevrons)"
            have a2: "table_answers (page ?st2)" using a1 by (rule c)
            show ?thesis
            proof (cases "find_xpath (page ?st2) clickable_xpath")
              case (Raised e)
              with answers_xpath [OF a2] show ?thesis by blast
            next
              case (Got all_clickables)
              let ?st3 = "foldl (\<lambda>s clickable. script_click click clickable s)
                            ?st2 (take 5 all_clickables)"
              have a3: "table_answers (page ?st3)" using a2 by (rule c)
              have "expand_round click st = Inr ?st3"
                unfolding e1 rows rem using True Got
                by (simp only: access.case if_True Let_def simp_thms)
              with a3 show ?thesis by blast
            qed
          qed
        qed
      qed
    qed
  qed
qed

lemma expand_loop_answers:
  "keeps_answering click \<Longrightarrow> table_answers (page st) \<Longrightarrow>
     \<exists>st'. expand_loop click st = Inr st'"
proof (induction click st rule: expand_loop.induct)
  case (1 click st)
  note keep = "1.prems"(1)
  show ?case
  proof (cases "attempt st < max_attempts")
    case False
    then show ?thesis by (simp add: expand_loop.simps [of click st])
  next
    case True
    from expand_round_answers [OF keep "1.prems"(2)] obtain st1 where
      r: "expand_round click st = Inr st1" "table_answers (page st1)" by blast
    show ?thesis
    proof (cases "any_expanded st1")
      case False
      with True r show ?thesis by (simp add: expand_loop.simps [of click st])
    next
      case e: True
      have "table_answers (page (st1\<lparr>attempt := attempt st + 1\<rparr>))" using r(2) by simp
      from "1.IH" [OF True r(1) _ keep this] e obtain st' where
        "expand_loop click (st1\<lparr>attempt := attempt st + 1\<rparr>) = Inr st'" by auto
      with True r e show ?thesis by (simp add: expand_loop.simps [of click st])
    qed
  qed
qed




lemma first_pass_rounds:
  assumes "first_pass click table = Inr st"
  shows "rounds st \<le> 15"
proof -
  let ?init = "\<lparr>page = table, attempt = 0, expanded_count = 0, any_expanded = False,
        rounds = 0, activations = []\<rparr>"
  from assms have "expand_loop click ?init = Inr st" by (simp add: first_pass_def)
  from expand_loop_rounds [OF this] show ?thesis by (simp add: max_attempts_def)
qed




text \<open>
  Claim C8, as stated, fails. The queries on the table handle in the first pass stand
  outside every \<open>try\<close>: when the one control of \<open>stubborn_table\<close> resists all three
  strategies and the table handle is stale afterwards, the query for the rows raises and
  \<open>expand_groups\<close> raises with it instead of flattening.
\<close>

theorem stale_table_counterexample:
  "expand_groups breaking_browser stubborn_table = Inl WebDriverException"
  by (simp add: expand_groups_def first_pass_def expand_loop.simps expand_round_def
                expand_button_def script_click_def activate_def stubborn_table_def
                bare_table_def stale_table_def breaking_browser_def expandable_selectors_def
                chevron_xpath_def clickable_xpath_def max_attempts_def Let_def)

text \<open>
  Claim C8, as amended. \<open>expand_groups\<close> ends for every table and every browser.
  Whenever its first pass returns, it has run at most 15 rounds and the result is the
  second pass over the table as it then is. Whatever the clicks do, succeed or raise, the
  first pass returns as long as the queries on the table handle itself return, at the
  start and after every click.
\<close>

theorem expand_groups_bounded:
  "(first_pass click table = Inr st \<longrightarrow>
      rounds st \<le> 15 \<and> expand_groups click table = Inr (second_pass (page st))) \<and>
   (keeps_answering click \<and> table_answers table \<longrightarrow>
      (\<exists>st'. first_pass click table = Inr st' \<and> rounds st' \<le> 15 \<and>
             expand_groups click table = Inr (second_pass (page st'))))"
proof (intro conjI impI)
  assume f: "first_pass click table = Inr st"
  then show "rounds st \<le> 15" by (rule first_pass_rounds)
  from f show "expand_groups click table = Inr (second_pass (page st))"
    by (simp add: expand_groups_def)
next
  assume h: "keeps_answering click \<and> table_answers table"
  let ?init = "\<lparr>page = table, attempt = 0, expanded_count = 0, any_expanded = False,
        rounds = 0, activations = []\<rparr>"
  from h have "table_answers (page ?init)" by simp
  with h expand_loop_answers [of click ?init] obtain st' where
    f: "first_pass click table = Inr st'"
    by (auto simp: first_pass_def)
  from f have "rounds st' \<le> 15" by (rule first_pass_rounds)
  moreover from f have "expand_groups click table = Inr (second_pass (page st'))"
    by (simp add: expand_groups_def)
  ultimately show "\<exists>st'. first_pass click table = Inr st' \<and> rounds st' \<le> 15 \<and>
             expand_groups click table = Inr (second_pass (page st'))"
    using f by blast
qed

theorem expand_groups_bounded_witness:
  "(\<exists>st'. first_pass resisting_browser stubborn_table = Inr st' \<and> rounds st' \<le> 15 \<and>
          expand_groups resisting_browser stubborn_table = Inr (second_pass (page st'))) \<and>
   map_sum id activations (first_pass resisting_browser stubborn_table) =
     Inr [(DirectClick, 0), (ScriptClick, 0), (ActionChainsClick, 0)] \<and>
   map_sum id snd (expand_groups resisting_browser stubborn_table) = Inr []"
proof -
  have k: "keeps_answering resisting_browser \<and> table_answers stubborn_table"
    by (simp add: keeps_answering_def resisting_browser_def table_answers_def
                  stubborn_table_def bare_table_def)
  have a: "map_sum id activations (first_pass resisting_browser stubborn_table) =
     Inr [(DirectClick, 0), (ScriptClick, 0), (ActionChainsClick, 0)]"
    by (simp add: first_pass_def expand_loop.simps expand_round_def
                expand_button_def script_click_def activate_def stubborn_table_def
                bare_table_def resisting_browser_def expandable_selectors_def
                chevron_xpath_def clickable_xpath_def max_attempts_def Let_def)
  have p: "map_sum id page (first_pass resisting_browser stubborn_table) = Inr stubborn_table"
    by (simp add: first_pass_def expand_loop.simps expand_round_def
                expand_button_def script_click_def activate_def stubborn_table_def
                bare_table_def resisting_browser_def expandable_selectors_def
                chevron_xpath_def clickable_xpath_def max_attempts_def Let_def)
  have s: "snd (second_pass stubborn_table) = []"
    by (simp add: second_pass_def parse_table_text_fallback_def row_selectors_def
                  stubborn_table_def bare_table_def strip_def Let_def)
  from expand_groups_bounded [of resisting_browser stubborn_table] k obtain st' where
    e: "first_pass resisting_browser stubborn_table = Inr st' \<and> rounds st' \<le> 15 \<and>
        expand_groups resisting_browser stubborn_table = Inr (second_pass (page st'))"
    by blast
  with p have "page st' = stubborn_table" by simp
  with e s have "map_sum id snd (expand_groups resisting_browser stubborn_table) = Inr []"
    by simp
  with e a show ?thesis by blast
qed

end
